theory Spec2Isabelle
  imports Complex_Main "HOL-Library.Log_Nat" "HOL-Library.Multiset"
    "HOL-Library.List_Lexorder" "HOL-Library.Product_Lexorder"
begin

section \<open>Python values: exceptions, floats, numbers\<close>

text \<open>
  The program is \<^verbatim>\<open>try_gif.py\<close>. Every exception the source or the library calls
  it makes can raise is a value of \<open>error\<close>; a computation that may raise returns
  \<open>error + 'a\<close>, with \<open>Inl\<close> for the exception. \<open>OSError\<close> carries the path of an
  image file that cannot be opened or decoded. \<open>EncoderError\<close> stands for the exception
  that Pillow raises while it quantises the frames, encodes them and writes the GIF file
  (an \<open>OSError\<close> for a path that cannot be written, a \<open>ValueError\<close> for a frame
  without pixels, an \<open>OverflowError\<close> for a duration the format cannot hold), and
  carries the text of that exception.
\<close>

datatype error =
    ZeroDivisionError
  | OverflowError
  | MemoryError
  | TypeError
  | ValueError string
  | FileNotFoundError string
  | OSError string
  | EncoderError string

definition ebind :: "error + 'a \<Rightarrow> ('a \<Rightarrow> error + 'b) \<Rightarrow> error + 'b" where
  "ebind m f = (case m of Inl e \<Rightarrow> Inl e | Inr x \<Rightarrow> f x)"

text \<open>
  A Python float is an IEEE-754 binary64 value: a finite rational, an infinity or a
  NaN. (The sign of a zero is not kept: nothing in the program can observe it.)
  \<open>fl x\<close> is the double nearest to the exact value \<open>x\<close>, ties to the even significand:
  the significand has 53 bits, the exponent of the last place is at least \<open>-1074\<close>
  (subnormal numbers), and a result of magnitude \<open>2 ^ 1024\<close> or more is an infinity.
\<close>

datatype pyfloat = Fin rat | PosInf | NegInf | NaN

definition round_half_even :: "rat \<Rightarrow> int" where
  "round_half_even x =
     (let f = \<lfloor>x\<rfloor>; r = x - of_int f
      in if r < 1 / 2 then f else if 1 / 2 < r then f + 1 else if even f then f else f + 1)"

text \<open>\<open>ilog2 x\<close> is the exponent \<open>e\<close> with \<open>2 ^ e \<le> \<bar>x\<bar> < 2 ^ (e + 1)\<close>, for \<open>x \<noteq> 0\<close>.\<close>

definition ilog2 :: "rat \<Rightarrow> int" where
  "ilog2 x =
     (let (p, q) = quotient_of \<bar>x\<bar>; d = bitlen p - bitlen q
      in if 2 powi d \<le> \<bar>x\<bar> then d else d - 1)"

definition fl :: "rat \<Rightarrow> pyfloat" where
  "fl x =
     (if x = 0 then Fin 0
      else let q = max (ilog2 x - 52) (- 1074);
               y = of_int (round_half_even (x / 2 powi q)) * 2 powi q
           in if 2 powi 1024 \<le> y then PosInf
              else if y \<le> - (2 powi 1024) then NegInf
              else Fin y)"

text \<open>\<open>a / b\<close> on two Python ints: the correctly rounded quotient, or an exception.\<close>

definition int_truediv :: "int \<Rightarrow> int \<Rightarrow> error + pyfloat" where
  "int_truediv a b =
     (if b = 0 then Inl ZeroDivisionError
      else case fl (of_int a / of_int b) of
             Fin y \<Rightarrow> Inr (Fin y)
           | _ \<Rightarrow> Inl OverflowError)"

text \<open>The conversion \<open>float(n)\<close> of an int, implicit in \<open>n * x\<close> and \<open>n / x\<close>.\<close>

definition float_of_int :: "int \<Rightarrow> error + pyfloat" where
  "float_of_int n =
     (case fl (of_int n) of
        Fin y \<Rightarrow> Inr (Fin y)
      | _ \<Rightarrow> Inl OverflowError)"

fun float_is_zero :: "pyfloat \<Rightarrow> bool" where
  "float_is_zero (Fin x) = (x = 0)"
| "float_is_zero _ = False"

fun float_is_neg :: "pyfloat \<Rightarrow> bool" where
  "float_is_neg (Fin x) = (x < 0)"
| "float_is_neg NegInf = True"
| "float_is_neg _ = False"

fun float_mul :: "pyfloat \<Rightarrow> pyfloat \<Rightarrow> pyfloat" where
  "float_mul (Fin a) (Fin b) = fl (a * b)"
| "float_mul NaN y = NaN"
| "float_mul x NaN = NaN"
| "float_mul x y =
     (if float_is_zero x \<or> float_is_zero y then NaN
      else if float_is_neg x = float_is_neg y then PosInf else NegInf)"

fun float_truediv :: "pyfloat \<Rightarrow> pyfloat \<Rightarrow> error + pyfloat" where
  "float_truediv x (Fin b) =
     (if b = 0 then Inl ZeroDivisionError
      else case x of
             Fin a \<Rightarrow> Inr (fl (a / b))
           | NaN \<Rightarrow> Inr NaN
           | _ \<Rightarrow> Inr (if float_is_neg x = (b < 0) then PosInf else NegInf))"
| "float_truediv x NaN = Inr NaN"
| "float_truediv (Fin a) y = Inr (Fin 0)"
| "float_truediv x y = Inr NaN"

fun float_less :: "pyfloat \<Rightarrow> pyfloat \<Rightarrow> bool" where
  "float_less NaN y = False"
| "float_less x NaN = False"
| "float_less (Fin a) (Fin b) = (a < b)"
| "float_less x PosInf = (x \<noteq> PosInf)"
| "float_less NegInf y = (y \<noteq> NegInf)"
| "float_less x y = False"

text \<open>\<open>min(a, b)\<close> keeps its first argument unless the second is smaller.\<close>

definition float_min :: "pyfloat \<Rightarrow> pyfloat \<Rightarrow> pyfloat" where
  "float_min a b = (if float_less b a then b else a)"

text \<open>\<open>int(x)\<close> truncates towards zero.\<close>

fun py_int :: "pyfloat \<Rightarrow> error + int" where
  "py_int (Fin x) = Inr (if 0 \<le> x then \<lfloor>x\<rfloor> else \<lceil>x\<rceil>)"
| "py_int NaN = Inl (ValueError ''cannot convert float NaN to integer'')"
| "py_int x = Inl OverflowError"

definition int_mul_float :: "int \<Rightarrow> pyfloat \<Rightarrow> error + pyfloat" where
  "int_mul_float n x = ebind (float_of_int n) (\<lambda>a. Inr (float_mul a x))"

text \<open>
  The parameter \<open>fps\<close> is annotated \<open>Optional[float]\<close>; a caller may pass an int
  or a float, and both \<open>fps > 0\<close> and \<open>1000 / fps\<close> are defined on either.
\<close>

datatype pynum = PyInt int | PyFloat pyfloat

fun num_positive :: "pynum \<Rightarrow> bool" where
  "num_positive (PyInt n) = (0 < n)"
| "num_positive (PyFloat x) = float_less (Fin 0) x"

fun int_div_num :: "int \<Rightarrow> pynum \<Rightarrow> error + pyfloat" where
  "int_div_num a (PyInt n) = int_truediv a n"
| "int_div_num a (PyFloat x) = ebind (float_of_int a) (\<lambda>a'. float_truediv a' x)"

section \<open>The driver's frame duration\<close>

text \<open>
  Lines 77 to 80 of \<open>make_gif_from_folder\<close>:
  \<^verbatim>\<open>
    if fps is not None and fps > 0:
        duration_ms = int(1000 / fps)
    if duration_ms is None:
        duration_ms = 100  # default 10 fps
  \<close>
\<close>

definition frame_duration :: "pynum option \<Rightarrow> int option \<Rightarrow> error + int" where
  "frame_duration fps duration_ms =
     ebind
       (case fps of
          None \<Rightarrow> Inr duration_ms
        | Some f \<Rightarrow>
            if num_positive f
            then ebind (int_div_num 1000 f) (\<lambda>q. ebind (py_int q) (\<lambda>d. Inr (Some d)))
            else Inr duration_ms)
       (\<lambda>d. Inr (case d of None \<Rightarrow> 100 | Some ms \<Rightarrow> ms))"

section \<open>Ordering the input files\<close>

text \<open>
  \<^verbatim>\<open>
  def natural_sort_key(s: str):
      return [int(text) if text.isdigit() else text.lower() for text in re.split(r'(\d+)', s)]
  \<close>
  A string is a list of HOL characters, which are the code points below 256 (the Latin-1
  range of Unicode). On these, the library functions of the key are as Python defines them
  for its Unicode strings. The pattern \<open>\d\<close> matches a decimal digit, here \<open>0\<close> to
  \<open>9\<close>. \<open>str.isdigit\<close> accepts the decimal digits and also the superscript digits
  U+00B2, U+00B3 and U+00B9. \<open>int\<close> reads decimal digits only and raises \<open>ValueError\<close>
  on a superscript digit. \<open>str.lower\<close> maps \<open>A\<close> to \<open>Z\<close> and the capital letters
  U+00C0 to U+00DE, the multiplication sign U+00D7 apart, to the letter 32 code points
  further on.
\<close>

definition is_decimal :: "char \<Rightarrow> bool" where
  "is_decimal c = (48 \<le> (of_char c :: nat) \<and> (of_char c :: nat) \<le> 57)"

definition is_digit_char :: "char \<Rightarrow> bool" where
  "is_digit_char c =
     (is_decimal c \<or> (of_char c :: nat) = 178 \<or> (of_char c :: nat) = 179 \<or> (of_char c :: nat) = 185)"

text \<open>
  \<open>re.split(r'(\d+)', s)\<close>: the text before the first run of digits, that run, and the
  split of what follows it. The list starts and ends with a text that may be empty.
\<close>

function re_split_digits :: "string \<Rightarrow> string list" where
  "re_split_digits s =
     (let pre = takeWhile (\<lambda>c. \<not> is_decimal c) s;
          rest = dropWhile (\<lambda>c. \<not> is_decimal c) s
      in if rest = [] then [pre]
         else pre # takeWhile is_decimal rest # re_split_digits (dropWhile is_decimal rest))"
  by pat_completeness auto
termination
proof (relation "measure length")
  show "wf (measure length)" by simp
next
  fix s :: string and pre rest :: string
  assume r: "rest = dropWhile (\<lambda>c. \<not> is_decimal c) s" and ne: "rest \<noteq> []"
  from ne obtain c cs where rest: "rest = c # cs" by (cases rest) auto
  have "dropWhile (\<lambda>c. \<not> is_decimal c) s \<noteq> []" using r ne by simp
  then have "\<not> \<not> is_decimal (hd (dropWhile (\<lambda>c. \<not> is_decimal c) s))" by (rule hd_dropWhile)
  then have "is_decimal (hd rest)" unfolding r by blast
  then have "is_decimal c" by (simp add: rest)
  then have "length (dropWhile is_decimal rest) \<le> length cs"
    by (simp add: rest length_dropWhile_le)
  also have "\<dots> < length rest" by (simp add: rest)
  also have "\<dots> \<le> length s" by (simp add: r length_dropWhile_le)
  finally show "(dropWhile is_decimal rest, s) \<in> measure length" by simp
qed

declare re_split_digits.simps [simp del]

text \<open>\<open>text.isdigit()\<close>: not empty, and every character one that \<open>isdigit\<close> accepts.\<close>

definition isdigit :: "string \<Rightarrow> bool" where
  "isdigit text = (text \<noteq> [] \<and> list_all is_digit_char text)"

text \<open>
  \<open>int(text)\<close> on a text that \<open>isdigit\<close> accepts. \<open>int\<close> reads the decimal digits
  the text begins with. More than 4300 of them exceed the limit that Python (3.11 and later,
  by default) puts on the digits of a converted string; a text that goes on with another
  character is not a number; both raise \<open>ValueError\<close>. Otherwise the result is the number
  in base 10.
\<close>

fun str_of_nat :: "nat \<Rightarrow> string" where
  "str_of_nat n =
     (if n < 10 then [char_of (48 + n)]
      else str_of_nat (n div 10) @ [char_of (48 + n mod 10)])"

definition int_of_str :: "string \<Rightarrow> error + int" where
  "int_of_str text =
     (let digits = length (takeWhile is_decimal text)
      in if 4300 < digits
         then Inl (ValueError
                (''Exceeds the limit (4300 digits) for integer string conversion: value has ''
                 @ str_of_nat digits
                 @ '' digits; use sys.set_int_max_str_digits() to increase the limit''))
         else if text = [] \<or> digits < length text
         then Inl (ValueError
                (''invalid literal for int() with base 10: '' @ [CHR 0x27] @ text @ [CHR 0x27]))
         else Inr (foldl (\<lambda>a c. 10 * a + (int (of_char c) - 48)) 0 text))"

definition lower_char :: "char \<Rightarrow> char" where
  "lower_char c =
     (let n = of_char c :: nat
      in if (65 \<le> n \<and> n \<le> 90) \<or> (192 \<le> n \<and> n \<le> 222 \<and> n \<noteq> 215)
         then char_of (n + 32) else c)"

definition lower :: "string \<Rightarrow> string" where
  "lower text = map lower_char text"

text \<open>A sort key is a list of ints and strings.\<close>

datatype token = TInt int | TStr string

text \<open>One item of the key: \<open>int(text) if text.isdigit() else text.lower()\<close>.\<close>

definition key_token :: "string \<Rightarrow> error + token" where
  "key_token text =
     (if isdigit text then ebind (int_of_str text) (\<lambda>n. Inr (TInt n))
      else Inr (TStr (lower text)))"

text \<open>
  A list comprehension evaluates its items from left to right, and the first exception ends
  it.
\<close>

fun in_turn :: "(error + 'a) list \<Rightarrow> error + 'a list" where
  "in_turn [] = Inr []"
| "in_turn (m # ms) = ebind m (\<lambda>x. ebind (in_turn ms) (\<lambda>xs. Inr (x # xs)))"

definition natural_sort_key :: "string \<Rightarrow> error + token list" where
  "natural_sort_key s = in_turn (map key_token (re_split_digits s))"

text \<open>
  Python compares strings by code point, and lists by their first differing items (found
  with \<open>==\<close>, which is defined between an int and a string), then by length.
  \<open><\<close> between an int and a string raises \<open>TypeError\<close>.
\<close>

fun str_less :: "string \<Rightarrow> string \<Rightarrow> bool" where
  "str_less [] [] = False"
| "str_less [] (b # bs) = True"
| "str_less (a # as) [] = False"
| "str_less (a # as) (b # bs) =
     (if a = b then str_less as bs else (of_char a :: nat) < of_char b)"

fun token_less :: "token \<Rightarrow> token \<Rightarrow> error + bool" where
  "token_less (TInt a) (TInt b) = Inr (a < b)"
| "token_less (TStr a) (TStr b) = Inr (str_less a b)"
| "token_less (TInt a) (TStr b) = Inl TypeError"
| "token_less (TStr a) (TInt b) = Inl TypeError"

fun key_less :: "token list \<Rightarrow> token list \<Rightarrow> error + bool" where
  "key_less [] [] = Inr False"
| "key_less [] (y # ys) = Inr True"
| "key_less (x # xs) [] = Inr False"
| "key_less (x # xs) (y # ys) = (if x = y then key_less xs ys else token_less x y)"

text \<open>
  \<open>sorted(xs, key=f)\<close> first computes the key of every item, in the order of the list,
  and then sorts stably, comparing keys with \<open><\<close> only. The sort is modelled as the
  stable insertion sort: an item goes behind the items whose key is smaller than its own,
  and before the first item whose key is not. A key or a comparison that raises makes the
  sort raise.
\<close>

fun py_insort :: "token list \<times> 'a \<Rightarrow> (token list \<times> 'a) list \<Rightarrow> error + (token list \<times> 'a) list" where
  "py_insort x [] = Inr [x]"
| "py_insort x (y # ys) =
     ebind (key_less (fst y) (fst x))
       (\<lambda>smaller. if smaller then ebind (py_insort x ys) (\<lambda>r. Inr (y # r))
                   else Inr (x # y # ys))"

fun py_sort :: "(token list \<times> 'a) list \<Rightarrow> error + (token list \<times> 'a) list" where
  "py_sort [] = Inr []"
| "py_sort (x # xs) = ebind (py_sort xs) (py_insort x)"

definition sorted_by_key :: "('a \<Rightarrow> error + token list) \<Rightarrow> 'a list \<Rightarrow> error + 'a list" where
  "sorted_by_key key xs =
     ebind (in_turn (map (\<lambda>x. ebind (key x) (\<lambda>k. Inr (k, x))) xs)) (\<lambda>kvs.
     ebind (py_sort kvs) (\<lambda>r. Inr (map snd r)))"

section \<open>Images and the world outside the program\<close>

text \<open>
  An image is a raster in the RGBA colour model, as \<open>load_frames\<close> has it after
  \<open>convert('RGBA')\<close>: its size and its pixel at each coordinate.
\<close>

type_synonym rgba = "int \<times> int \<times> int \<times> int"

record image =
  width :: int
  height :: int
  pix :: "int \<Rightarrow> int \<Rightarrow> rgba"

definition img_size :: "image \<Rightarrow> int \<times> int" where
  "img_size img = (width img, height img)"

record gif =
  gif_frames :: "image list"
  gif_duration :: int
  gif_loop :: int
  gif_optimize :: bool
  gif_disposal :: int

text \<open>
  What the program reads from its environment, taken as parameters: the matches of a glob
  pattern, the decoded RGBA image of a path (\<open>None\<close> where \<open>Image.open\<close> or the
  conversion raises), the Lanczos resampling filter (the pixels of an image resampled to
  a new size), whether Pillow can allocate the memory of an image of a given size, the
  adaptive palette quantisation, and the failure of encoding and writing a GIF to a path
  (\<open>None\<close> when the file is written, otherwise the text of the exception).
\<close>

record world =
  glob :: "string \<Rightarrow> string list"
  decode :: "string \<Rightarrow> image option"
  lanczos :: "image \<Rightarrow> int \<times> int \<Rightarrow> int \<Rightarrow> int \<Rightarrow> rgba"
  can_allocate :: "int \<times> int \<Rightarrow> bool"
  quantize :: "image \<Rightarrow> image"
  save_failure :: "string \<Rightarrow> gif \<Rightarrow> string option"

text \<open>What a run does to its environment, in order.\<close>

datatype event =
    Print_paths "string list"
  | Open_image string
  | Write_gif string gif
  | Write_failed string
  | Print_saved nat string

text \<open>\<open>os.path.join(input_dir, pat)\<close> on a POSIX system.\<close>

definition path_join :: "string \<Rightarrow> string \<Rightarrow> string" where
  "path_join a b =
     (if b \<noteq> [] \<and> hd b = CHR ''/'' then b
      else if a = [] \<or> last a = CHR ''/'' then a @ b
      else a @ ''/'' @ b)"

definition default_patterns :: "string list" where
  "default_patterns = [''*.png'', ''*.jpg'', ''*.jpeg'', ''*.bmp'', ''*.webp'']"

text \<open>
  \<^verbatim>\<open>
  def collect_image_paths(input_dir, patterns=('*.png', '*.jpg', '*.jpeg', '*.bmp', '*.webp')):
      paths = []
      for pat in patterns:
          paths.extend(glob.glob(os.path.join(input_dir, pat)))
      return sorted(paths, key=natural_sort_key)
  \<close>
\<close>

definition collect_image_paths :: "world \<Rightarrow> string \<Rightarrow> string list \<Rightarrow> error + string list" where
  "collect_image_paths w input_dir patterns =
     sorted_by_key natural_sort_key
       (concat (map (\<lambda>pat. glob w (path_join input_dir pat)) patterns))"

section \<open>Fitting an image to the canvas\<close>

text \<open>
  The library calls of \<open>fit_to_canvas\<close>, as Pillow defines them. Pillow keeps the
  dimensions of an image in C ints: a dimension that does not fit one raises
  \<open>OverflowError\<close>, and a size whose memory cannot be allocated raises
  \<open>MemoryError\<close>.
  \<open>Image.resize\<close> returns a copy when the size does not change; otherwise it refuses a
  size below one pixel, and resamples into a new image.
  \<open>Image.new\<close> refuses a negative size, and allocates a new image of one colour.
  \<open>Image.paste\<close> copies the pasted image into the box at the offset, clipped to the
  canvas, and keeps the size of the canvas.
\<close>

definition c_int :: "int \<Rightarrow> bool" where
  "c_int n = (- (2 ^ 31) \<le> n \<and> n < 2 ^ 31)"

definition resize :: "world \<Rightarrow> image \<Rightarrow> int \<times> int \<Rightarrow> error + image" where
  "resize w img sz =
     (if img_size img = sz then Inr img
      else if \<not> c_int (fst sz) \<or> \<not> c_int (snd sz) then Inl OverflowError
      else if fst sz < 1 \<or> snd sz < 1 then Inl (ValueError ''height and width must be > 0'')
      else if \<not> can_allocate w sz then Inl MemoryError
      else Inr \<lparr>width = fst sz, height = snd sz, pix = lanczos w img sz\<rparr>)"

definition image_new :: "world \<Rightarrow> int \<times> int \<Rightarrow> rgba \<Rightarrow> error + image" where
  "image_new w sz color =
     (if fst sz < 0 \<or> snd sz < 0 then Inl (ValueError ''Width and height must be >= 0'')
      else if \<not> c_int (fst sz) \<or> \<not> c_int (snd sz) then Inl OverflowError
      else if \<not> can_allocate w sz then Inl MemoryError
      else Inr \<lparr>width = fst sz, height = snd sz, pix = (\<lambda>x y. color)\<rparr>)"

definition paste :: "image \<Rightarrow> image \<Rightarrow> int \<times> int \<Rightarrow> image" where
  "paste canvas img offset =
     canvas\<lparr>pix := (\<lambda>x y.
        if fst offset \<le> x \<and> x < fst offset + width img \<and>
           snd offset \<le> y \<and> y < snd offset + height img
        then pix img (x - fst offset) (y - snd offset)
        else pix canvas x y)\<rparr>"

text \<open>
  Lines 23 to 25: the size of the resized image.
  \<^verbatim>\<open>
        w, h = img.size
        scale = min(target_w / w, target_h / h)
        new_w, new_h = max(1, int(w * scale)), max(1, int(h * scale))
  \<close>
\<close>

definition new_size :: "int \<times> int \<Rightarrow> int \<times> int \<Rightarrow> error + int \<times> int" where
  "new_size isize sz =
     (let target_w = fst sz; target_h = snd sz; w = fst isize; h = snd isize
      in ebind (int_truediv target_w w) (\<lambda>sw.
         ebind (int_truediv target_h h) (\<lambda>sh.
         let scale = float_min sw sh
         in ebind (ebind (int_mul_float w scale) py_int) (\<lambda>iw.
            ebind (ebind (int_mul_float h scale) py_int) (\<lambda>ih.
            Inr (max 1 iw, max 1 ih))))))"

text \<open>Line 28: \<open>offset = ((target_w - new_w) // 2, (target_h - new_h) // 2)\<close>.\<close>

definition paste_offset :: "int \<times> int \<Rightarrow> int \<times> int \<Rightarrow> int \<times> int" where
  "paste_offset sz ns = ((fst sz - fst ns) div 2, (snd sz - snd ns) div 2)"

text \<open>
  \<^verbatim>\<open>
  def fit_to_canvas(img, size, keep_aspect=True, bgcolor=(0, 0, 0, 0)):
      target_w, target_h = size
      if keep_aspect:
          w, h = img.size
          scale = min(target_w / w, target_h / h)
          new_w, new_h = max(1, int(w * scale)), max(1, int(h * scale))
          img = img.resize((new_w, new_h), Image.LANCZOS)
          canvas = Image.new('RGBA', (target_w, target_h), bgcolor)
          offset = ((target_w - new_w) // 2, (target_h - new_h) // 2)
          canvas.paste(img, offset)
          return canvas
      else:
          return img.resize(size, Image.LANCZOS)
  \<close>
\<close>

definition fit_to_canvas ::
  "world \<Rightarrow> image \<Rightarrow> int \<times> int \<Rightarrow> bool \<Rightarrow> rgba \<Rightarrow> error + image" where
  "fit_to_canvas w img sz keep_aspect bgcolor =
     (if keep_aspect
      then ebind (new_size (img_size img) sz) (\<lambda>ns.
           ebind (resize w img ns) (\<lambda>resized.
           ebind (image_new w sz bgcolor) (\<lambda>canvas.
           Inr (paste canvas resized (paste_offset sz ns)))))
      else resize w img sz)"

section \<open>Loading, saving and the driver\<close>

text \<open>
  \<^verbatim>\<open>
  def load_frames(paths, target_size=None):
      frames = []
      base_size = None
      for i, p in enumerate(paths):
          img = Image.open(p).convert('RGBA')
          if i == 0:
              base_size = target_size or img.size
          img = fit_to_canvas(img, base_size, keep_aspect=True, bgcolor=(0, 0, 0, 0))
          frames.append(img)
      return frames
  \<close>
  The loop of \<open>load_frames\<close>. \<open>base_size\<close> is \<open>None\<close> before the first image
  (\<open>i == 0\<close>) and the canvas size from then on. The events are the files opened.
\<close>

fun load_loop ::
  "world \<Rightarrow> (int \<times> int) option \<Rightarrow> (int \<times> int) option \<Rightarrow> string list \<Rightarrow> (error + image list) \<times> event list" where
  "load_loop w target_size base_size [] = (Inr [], [])"
| "load_loop w target_size base_size (p # ps) =
     (case decode w p of
        None \<Rightarrow> (Inl (OSError p), [Open_image p])
      | Some img \<Rightarrow>
          let base = (case base_size of
                        Some b \<Rightarrow> b
                      | None \<Rightarrow> (case target_size of Some t \<Rightarrow> t | None \<Rightarrow> img_size img))
          in case fit_to_canvas w img base True (0, 0, 0, 0) of
               Inl e \<Rightarrow> (Inl e, [Open_image p])
             | Inr frame \<Rightarrow>
                 (case load_loop w target_size (Some base) ps of
                    (Inl e, ev) \<Rightarrow> (Inl e, Open_image p # ev)
                  | (Inr frames, ev) \<Rightarrow> (Inr (frame # frames), Open_image p # ev)))"

definition load_frames ::
  "world \<Rightarrow> string list \<Rightarrow> (int \<times> int) option \<Rightarrow> (error + image list) \<times> event list" where
  "load_frames w paths target_size = load_loop w target_size None paths"

text \<open>
  \<^verbatim>\<open>
  def save_gif(frames, output_path, duration_ms=100, loop=0, optimize=True):
      if not frames:
          raise ValueError("No frames to save.")
      pal_frames = [f.convert('P', palette=Image.ADAPTIVE, colors=256) for f in frames]
      pal_frames[0].save(output_path, save_all=True, append_images=pal_frames[1:],
          format='GIF', duration=duration_ms, loop=loop, optimize=optimize, disposal=2)
  \<close>
  The events are the file written, or the failed attempt to produce it.
\<close>

definition save_gif ::
  "world \<Rightarrow> image list \<Rightarrow> string \<Rightarrow> int \<Rightarrow> int \<Rightarrow> bool \<Rightarrow> (error + unit) \<times> event list" where
  "save_gif w frames output_path duration_ms loop optimize =
     (if frames = [] then (Inl (ValueError ''No frames to save.''), [])
      else let pal_frames = map (quantize w) frames;
               file = \<lparr>gif_frames = pal_frames, gif_duration = duration_ms, gif_loop = loop,
                       gif_optimize = optimize, gif_disposal = 2\<rparr>
           in case save_failure w output_path file of
                None \<Rightarrow> (Inr (), [Write_gif output_path file])
              | Some e \<Rightarrow> (Inl (EncoderError e), [Write_failed output_path]))"

text \<open>
  \<^verbatim>\<open>
  def make_gif_from_folder(input_dir, output_gif="output.gif", fps=None, duration_ms=None,
                           size=None, loop=0):
      paths = collect_image_paths(input_dir)
      print(paths)
      if not paths:
          raise FileNotFoundError(f"No images found in {input_dir}")
      if fps is not None and fps > 0:
          duration_ms = int(1000 / fps)
      if duration_ms is None:
          duration_ms = 100  # default 10 fps
      frames = load_frames(paths, target_size=size)
      save_gif(frames, output_gif, duration_ms=duration_ms, loop=loop)
      print(f"Saved GIF with {len(frames)} frames to {output_gif}")
  \<close>
\<close>

definition make_gif_from_folder ::
  "world \<Rightarrow> string \<Rightarrow> string \<Rightarrow> pynum option \<Rightarrow> int option \<Rightarrow> (int \<times> int) option \<Rightarrow> int \<Rightarrow> (error + unit) \<times> event list" where
  "make_gif_from_folder w input_dir output_gif fps duration_ms sz loop =
     (case collect_image_paths w input_dir default_patterns of
        Inl e \<Rightarrow> (Inl e, [])
      | Inr paths \<Rightarrow>
          if paths = []
          then (Inl (FileNotFoundError (''No images found in '' @ input_dir)), [Print_paths paths])
          else case frame_duration fps duration_ms of
                 Inl e \<Rightarrow> (Inl e, [Print_paths paths])
               | Inr d \<Rightarrow>
                   (case load_frames w paths sz of
                      (Inl e, ev) \<Rightarrow> (Inl e, Print_paths paths # ev)
                    | (Inr frames, ev) \<Rightarrow>
                        (case save_gif w frames output_gif d loop True of
                           (Inl e, ev') \<Rightarrow> (Inl e, Print_paths paths # ev @ ev')
                         | (Inr u, ev') \<Rightarrow>
                             (Inr (),
                              Print_paths paths # ev @ ev' @
                                [Print_saved (length frames) output_gif]))))"

text \<open>
  A world for the examples: a folder \<open>frames\<close> with three PNG files of 50 by 50, 80 by 40
  and 50 by 50 pixels, a folder \<open>squared\<close> with two files, one of which has the
  superscript digit U+00B2 in its name (\<open>img1\<close>, the superscript two, \<open>2.png\<close>), and a
  folder \<open>empty\<close> with none. Its memory holds an image of up to 4096 by 4096 pixels,
  and a GIF is written when its frames have at least one pixel and its frame duration is
  from 0 to 65535 hundredths of a second.
\<close>

definition example_image :: "int \<Rightarrow> int \<Rightarrow> image" where
  "example_image w h = \<lparr>width = w, height = h, pix = (\<lambda>x y. (x, y, 0, 255))\<rparr>"

definition example_world :: world where
  "example_world =
     \<lparr>glob = (\<lambda>pat. if pat = ''frames/*.png''
                     then [''frames/img10.png'', ''frames/img2.png'', ''frames/img1.png'']
                     else if pat = ''squared/*.png''
                     then [''squared/img3.png'', ''squared/img1'' @ [CHR 0xB2] @ ''2.png'']
                     else []),
      decode = (\<lambda>p. if p = ''frames/img2.png'' then Some (example_image 80 40)
                      else if p = ''frames/img1.png'' \<or> p = ''frames/img10.png''
                      then Some (example_image 50 50) else None),
      lanczos = (\<lambda>img sz x y. (0, 0, 0, 255)),
      can_allocate = (\<lambda>sz. fst sz \<le> 4096 \<and> snd sz \<le> 4096),
      quantize = (\<lambda>img. img),
      save_failure = (\<lambda>p file.
        if list_all (\<lambda>f. 1 \<le> width f \<and> 1 \<le> height f) (gif_frames file)
           \<and> 0 \<le> gif_duration file \<and> gif_duration file < 655360
        then None else Some ''cannot write the file'')\<rparr>"

section \<open>Notions the claims are stated with\<close>

text \<open>
  The dimensions an image of this program has: Pillow refuses to open a file whose image has
  a width or a height of zero, and keeps both in C ints, so a dimension is at least 1 and
  below \<open>2 ^ 31\<close>.
\<close>

definition image_dim :: "int \<Rightarrow> bool" where
  "image_dim n = (1 \<le> n \<and> n < 2 ^ 31)"

text \<open>The scale factor in exact arithmetic.\<close>

definition exact_scale :: "int \<times> int \<Rightarrow> int \<times> int \<Rightarrow> rat" where
  "exact_scale isize sz =
     min (of_int (fst sz) / of_int (fst isize)) (of_int (snd sz) / of_int (snd isize))"

text \<open>
  The resolved canvas size: the explicit target size when there is one, otherwise the size
  of the first image.
\<close>

definition canvas_size :: "world \<Rightarrow> string list \<Rightarrow> (int \<times> int) option \<Rightarrow> (int \<times> int) option" where
  "canvas_size w paths target_size =
     (case target_size of
        Some t \<Rightarrow> Some t
      | None \<Rightarrow> (case paths of [] \<Rightarrow> None | p # ps \<Rightarrow> map_option img_size (decode w p)))"

text \<open>A path that decodes to an image with proper dimensions.\<close>

definition loadable :: "world \<Rightarrow> string \<Rightarrow> bool" where
  "loadable w p =
     (case decode w p of
        None \<Rightarrow> False
      | Some img \<Rightarrow> image_dim (width img) \<and> image_dim (height img))"

text \<open>
  The size of the resized image as the specification words it, in exact arithmetic: the
  floor of each dimension times the scale, and at least one pixel.
\<close>

definition spec_new_size :: "int \<times> int \<Rightarrow> int \<times> int \<Rightarrow> int \<times> int" where
  "spec_new_size isize sz =
     (max 1 \<lfloor>of_int (fst isize) * exact_scale isize sz\<rfloor>,
      max 1 \<lfloor>of_int (snd isize) * exact_scale isize sz\<rfloor>)"

text \<open>
  Dimensions below \<open>2 ^ 25\<close>, for which the rounding errors cannot lift a product to the
  next integer.
\<close>

definition small_dim :: "int \<Rightarrow> bool" where
  "small_dim n = (1 \<le> n \<and> n < 2 ^ 25)"

text \<open>
  The duration as the specification words it for a positive rate: \<open>round(1000 / fps)\<close>,
  with Python's rounding of a tie to the even integer.
\<close>

definition spec_duration :: "rat \<Rightarrow> int" where
  "spec_duration fps = round_half_even (1000 / fps)"

text \<open>
  The natural order as the specification words it. A name is split into runs of digits and
  runs of other characters in turn; the split begins and ends with a run of other characters,
  which may be empty. A run of digits counts as the number it denotes, another run as its
  lowercase string. The tokens of two names are compared pairwise, numbers as integers and
  strings by their code points, and a name whose tokens are a proper prefix of another's
  comes first. \<open>natural_le s t\<close> says that \<open>t\<close> does not come before \<open>s\<close>.
  The digits with their values and the capital letters with their lowercase letters are
  listed in tables.
\<close>

definition spec_digits :: "(char \<times> int) list" where
  "spec_digits = zip ''0123456789'' [0, 1, 2, 3, 4, 5, 6, 7, 8, 9]"

definition spec_letters :: "(char \<times> char) list" where
  "spec_letters =
     zip (''ABCDEFGHIJKLMNOPQRSTUVWXYZ'' @
          [CHR 0xC0, CHR 0xC1, CHR 0xC2, CHR 0xC3, CHR 0xC4, CHR 0xC5, CHR 0xC6, CHR 0xC7,
           CHR 0xC8, CHR 0xC9, CHR 0xCA, CHR 0xCB, CHR 0xCC, CHR 0xCD, CHR 0xCE, CHR 0xCF,
           CHR 0xD0, CHR 0xD1, CHR 0xD2, CHR 0xD3, CHR 0xD4, CHR 0xD5, CHR 0xD6, CHR 0xD8,
           CHR 0xD9, CHR 0xDA, CHR 0xDB, CHR 0xDC, CHR 0xDD, CHR 0xDE])
         (''abcdefghijklmnopqrstuvwxyz'' @
          [CHR 0xE0, CHR 0xE1, CHR 0xE2, CHR 0xE3, CHR 0xE4, CHR 0xE5, CHR 0xE6, CHR 0xE7,
           CHR 0xE8, CHR 0xE9, CHR 0xEA, CHR 0xEB, CHR 0xEC, CHR 0xED, CHR 0xEE, CHR 0xEF,
           CHR 0xF0, CHR 0xF1, CHR 0xF2, CHR 0xF3, CHR 0xF4, CHR 0xF5, CHR 0xF6, CHR 0xF8,
           CHR 0xF9, CHR 0xFA, CHR 0xFB, CHR 0xFC, CHR 0xFD, CHR 0xFE])"

definition spec_is_digit :: "char \<Rightarrow> bool" where
  "spec_is_digit c = (map_of spec_digits c \<noteq> None)"

definition spec_number :: "string \<Rightarrow> int" where
  "spec_number ds =
     foldl (\<lambda>n c. 10 * n + (case map_of spec_digits c of Some v \<Rightarrow> v | None \<Rightarrow> 0)) 0 ds"

definition spec_lower :: "string \<Rightarrow> string" where
  "spec_lower text = map (\<lambda>c. case map_of spec_letters c of Some l \<Rightarrow> l | None \<Rightarrow> c) text"

fun spec_runs :: "string \<Rightarrow> string list" where
  "spec_runs [] = [[]]"
| "spec_runs (c # cs) =
     (if spec_is_digit c
      then (case spec_runs cs of
              [] # ds # runs \<Rightarrow> [] # (c # ds) # runs
            | runs \<Rightarrow> [] # [c] # runs)
      else (case spec_runs cs of
              text # runs \<Rightarrow> (c # text) # runs
            | [] \<Rightarrow> [[c]]))"

text \<open>The tokens of a list of runs; the flag says whether a run of other characters is due.\<close>

fun spec_tokens :: "bool \<Rightarrow> string list \<Rightarrow> token list" where
  "spec_tokens b [] = []"
| "spec_tokens b (run # runs) =
     (if b then TStr (spec_lower run) else TInt (spec_number run)) # spec_tokens (\<not> b) runs"

definition spec_key :: "string \<Rightarrow> token list" where
  "spec_key s = spec_tokens True (spec_runs s)"

fun tokens_before :: "token list \<Rightarrow> token list \<Rightarrow> bool" where
  "tokens_before [] [] = False"
| "tokens_before [] (y # ys) = True"
| "tokens_before (x # xs) [] = False"
| "tokens_before (TInt a # xs) (TInt b # ys) = (a < b \<or> (a = b \<and> tokens_before xs ys))"
| "tokens_before (TStr a # xs) (TStr b # ys) =
     ((map of_char a :: nat list) < map of_char b \<or> (a = b \<and> tokens_before xs ys))"
| "tokens_before (TInt a # xs) (TStr b # ys) = False"
| "tokens_before (TStr a # xs) (TInt b # ys) = False"

definition natural_le :: "string \<Rightarrow> string \<Rightarrow> bool" where
  "natural_le s t = (\<not> tokens_before (spec_key t) (spec_key s))"

text \<open>
  A plain name: one without a superscript digit (U+00B2, U+00B3, U+00B9) and of at most 4300
  characters.
\<close>

definition plain_name :: "string \<Rightarrow> bool" where
  "plain_name s =
     (length s \<le> 4300 \<and> CHR 0xB2 \<notin> set s \<and> CHR 0xB3 \<notin> set s \<and> CHR 0xB9 \<notin> set s)"

text \<open>
  Runs that are a text without a decimal digit and a non-empty run of decimal digits in
  turn; the flag says whether a text is due.
\<close>

fun runs_ok :: "bool \<Rightarrow> string list \<Rightarrow> bool" where
  "runs_ok b [] = True"
| "runs_ok b (run # runs) =
     ((if b then list_all (\<lambda>c. \<not> is_decimal c) run else run \<noteq> [] \<and> list_all is_decimal run)
      \<and> runs_ok (\<not> b) runs)"

text \<open>
  A key whose tokens are a string and an int in turn; the flag says whether a string is due.
\<close>

fun alternating :: "bool \<Rightarrow> token list \<Rightarrow> bool" where
  "alternating b [] = True"
| "alternating b (TStr s # ts) = (b \<and> alternating False ts)"
| "alternating b (TInt n # ts) = (\<not> b \<and> alternating True ts)"

text \<open>
  For the proofs, tokens are embedded in a linear order: the lexicographic order on pairs of
  an int and a list of code points.
\<close>

definition enc :: "token \<Rightarrow> int \<times> nat list" where
  "enc t = (case t of TInt n \<Rightarrow> (n, []) | TStr s \<Rightarrow> (0, map of_char s))"

section \<open>Rounding to a double: the error of one operation\<close>

lemma ebind_simps [simp]:
  "ebind (Inl e) f = Inl e"
  "ebind (Inr x) f = f x"
  by (simp_all add: ebind_def)

subsection \<open>Powers of two\<close>

lemma p2_pos [simp]: "(0::rat) < 2 powi a"
  by simp

lemma p2_add: "(2::rat) powi (a + b) = 2 powi a * 2 powi b"
  by (rule power_int_add) simp

lemma p2_diff: "(2::rat) powi (a - b) = 2 powi a / 2 powi b"
  by (rule power_int_diff) simp

lemma p2_less_iff: "(2::rat) powi a < 2 powi b \<longleftrightarrow> a < b"
proof
  assume L: "(2::rat) powi a < 2 powi b"
  show "a < b"
  proof (rule ccontr)
    assume "\<not> a < b"
    then have "b \<le> a" by simp
    then have "(2::rat) powi b \<le> 2 powi a" by (rule power_int_increasing) simp
    with L show False by simp
  qed
next
  assume "a < b"
  then show "(2::rat) powi a < 2 powi b" by (rule power_int_strict_increasing) simp
qed

lemma p2_le_iff: "(2::rat) powi a \<le> 2 powi b \<longleftrightarrow> a \<le> b"
  using p2_less_iff[of b a] by (auto simp: not_less[symmetric])

lemma p2_of_nat: "0 \<le> a \<Longrightarrow> (2::rat) powi a = of_int (2 ^ nat a)"
  by (simp add: power_int_def)

subsection \<open>Rounding to an integer\<close>

lemma round_half_even_error: "\<bar>of_int (round_half_even x) - x\<bar> \<le> 1 / 2"
proof -
  have "of_int \<lfloor>x\<rfloor> \<le> x" "x < of_int \<lfloor>x\<rfloor> + 1" by linarith+
  then show ?thesis
    by (auto simp: round_half_even_def Let_def)
qed

lemma round_half_even_of_int [simp]: "round_half_even (of_int n) = n"
  by (simp add: round_half_even_def)

lemma round_half_even_eqI:
  assumes "of_int m - 1 / 2 < x" "x < of_int m + 1 / 2"
  shows "round_half_even x = m"
proof -
  have "\<bar>of_int (round_half_even x) - x\<bar> \<le> 1 / 2" by (rule round_half_even_error)
  with assms have "\<bar>(of_int (round_half_even x) :: rat) - of_int m\<bar> < 1" by linarith
  then have "\<bar>round_half_even x - m\<bar> < 1"
    by (metis of_int_abs of_int_diff of_int_less_1_iff)
  then show ?thesis by linarith
qed

subsection \<open>The binary exponent\<close>

lemma quotient_of_abs_pos:
  assumes "x \<noteq> 0" "quotient_of \<bar>x\<bar> = (p, q)"
  shows "0 < p" "0 < q" "\<bar>x\<bar> = of_int p / of_int q"
proof -
  show q: "0 < q" using assms(2) by (rule quotient_of_denom_pos)
  show eq: "\<bar>x\<bar> = of_int p / of_int q" using assms(2) by (rule quotient_of_div)
  have "0 < \<bar>x\<bar>" using assms(1) by simp
  with eq q show "0 < p" by (simp add: zero_less_divide_iff)
qed

lemma bitlen_rat_bounds:
  assumes "0 < p"
  shows "(2::rat) powi (bitlen p - 1) \<le> of_int p" "of_int p < (2::rat) powi (bitlen p)"
proof -
  have b: "2 ^ nat (bitlen p - 1) \<le> p" "p < 2 ^ nat (bitlen p)"
    using bitlen_bounds[OF assms] by auto
  have p1: "1 \<le> bitlen p"
    using assms bitlen_eq_zero_iff[of p] bitlen_nonneg[of p] by linarith
  have "(of_int (2 ^ nat (bitlen p - 1)) :: rat) \<le> of_int p"
    using b(1) by (simp only: of_int_le_iff)
  then show "(2::rat) powi (bitlen p - 1) \<le> of_int p"
    using p1 by (simp add: p2_of_nat)
  have "(of_int p :: rat) < of_int (2 ^ nat (bitlen p))"
    using b(2) by (simp only: of_int_less_iff)
  then show "of_int p < (2::rat) powi (bitlen p)"
    using p1 by (simp add: p2_of_nat)
qed

lemma ilog2_bounds:
  assumes "x \<noteq> 0"
  shows "2 powi (ilog2 x) \<le> \<bar>x\<bar>" "\<bar>x\<bar> < 2 powi (ilog2 x + 1)"
proof -
  obtain p q where pq: "quotient_of \<bar>x\<bar> = (p, q)" by (cases "quotient_of \<bar>x\<bar>")
  note P = quotient_of_abs_pos[OF assms pq]
  define d where "d = bitlen p - bitlen q"
  define P1 :: rat where "P1 = 2 powi (bitlen p - 1)"
  define Q1 :: rat where "Q1 = 2 powi (bitlen q - 1)"
  define rp :: rat where "rp = of_int p"
  define rq :: rat where "rq = of_int q"
  have pos: "0 < P1" "0 < Q1" "0 < rp" "0 < rq"
    using P by (simp_all add: P1_def Q1_def rp_def rq_def)
  have bp: "P1 \<le> rp" "rp < 2 * P1"
    using bitlen_rat_bounds[OF P(1)] p2_add[of "bitlen p - 1" 1]
    by (simp_all add: P1_def rp_def)
  have bq: "Q1 \<le> rq" "rq < 2 * Q1"
    using bitlen_rat_bounds[OF P(2)] p2_add[of "bitlen q - 1" 1]
    by (simp_all add: Q1_def rq_def)
  have x: "\<bar>x\<bar> = rp / rq" by (simp add: P(3) rp_def rq_def)
  have dd: "(2::rat) powi d = P1 / Q1"
  proof -
    have "d = (bitlen p - 1) - (bitlen q - 1)" by (simp add: d_def)
    then show ?thesis by (simp only: p2_diff P1_def Q1_def)
  qed
  have d1: "(2::rat) powi (d + 1) = 2 * (P1 / Q1)" "(2::rat) powi (d - 1) = (P1 / Q1) / 2"
    using p2_add[of d 1] p2_diff[of d 1] by (simp_all add: dd)
  have upper: "\<bar>x\<bar> < 2 powi (d + 1)"
  proof -
    have "rp * Q1 < 2 * P1 * Q1" using bp(2) pos by simp
    also have "\<dots> \<le> 2 * P1 * rq" using bq(1) pos by simp
    finally have "rp * Q1 < 2 * P1 * rq" .
    then have "rp / rq < 2 * P1 / Q1" using pos by (simp add: field_simps)
    then show ?thesis by (simp add: x d1)
  qed
  have lower: "2 powi (d - 1) < \<bar>x\<bar>"
  proof -
    have "P1 * rq < P1 * (2 * Q1)" using bq(2) pos by simp
    also have "\<dots> \<le> rp * (2 * Q1)" using bp(1) pos by simp
    finally have "P1 * rq < rp * (2 * Q1)" .
    then have "P1 / Q1 / 2 < rp / rq" using pos by (simp add: field_simps)
    then show ?thesis by (simp add: x d1)
  qed
  have il: "ilog2 x = (if 2 powi d \<le> \<bar>x\<bar> then d else d - 1)"
    by (simp add: ilog2_def pq d_def Let_def)
  show "2 powi (ilog2 x) \<le> \<bar>x\<bar>" using lower by (simp add: il)
  show "\<bar>x\<bar> < 2 powi (ilog2 x + 1)" using upper by (auto simp: il)
qed

lemma ilog2_unique:
  assumes "2 powi e \<le> \<bar>x\<bar>" "\<bar>x\<bar> < 2 powi (e + 1)"
  shows "ilog2 x = e"
proof -
  have "(0::rat) < 2 powi e" by simp
  with assms(1) have "0 < \<bar>x\<bar>" by linarith
  then have nz: "x \<noteq> 0" by simp
  note B = ilog2_bounds[OF nz]
  have "(2::rat) powi e < 2 powi (ilog2 x + 1)" using assms(1) B(2) by linarith
  then have 1: "e < ilog2 x + 1" by (simp add: p2_less_iff)
  have "(2::rat) powi (ilog2 x) < 2 powi (e + 1)" using assms(2) B(1) by linarith
  then have 2: "ilog2 x < e + 1" by (simp add: p2_less_iff)
  from 1 2 show ?thesis by linarith
qed

subsection \<open>Rounding to a double\<close>

lemma fl_zero [simp]: "fl 0 = Fin 0"
  by (simp add: fl_def)

lemma fl_finite:
  assumes "x \<noteq> 0" "\<bar>x\<bar> < 2 powi 1023"
  shows "fl x = Fin (of_int (round_half_even (x / 2 powi (max (ilog2 x - 52) (- 1074))))
                      * 2 powi (max (ilog2 x - 52) (- 1074)))"
    and "\<bar>of_int (round_half_even (x / 2 powi (max (ilog2 x - 52) (- 1074))))
                      * 2 powi (max (ilog2 x - 52) (- 1074)) - x\<bar>
          \<le> 2 powi (max (ilog2 x - 52) (- 1074)) / 2"
proof -
  define q where "q = max (ilog2 x - 52) (- 1074)"
  define Q :: rat where "Q = 2 powi q"
  define y where "y = of_int (round_half_even (x / Q)) * Q"
  have Qpos: "0 < Q" by (simp add: Q_def)
  note B = ilog2_bounds[OF assms(1)]
  have "(2::rat) powi (ilog2 x) < 2 powi 1023" using B(1) assms(2) by linarith
  then have e: "ilog2 x < 1023" by (simp only: p2_less_iff)
  then have "q \<le> 970" by (simp add: q_def)
  then have Q970: "Q \<le> 2 powi 970" unfolding Q_def by (simp only: p2_le_iff)
  have "\<bar>of_int (round_half_even (x / Q)) - x / Q\<bar> * Q \<le> 1 / 2 * Q"
    using round_half_even_error[of "x / Q"] Qpos by (intro mult_right_mono) simp_all
  moreover have "\<bar>of_int (round_half_even (x / Q)) - x / Q\<bar> * Q = \<bar>y - x\<bar>"
  proof -
    have "\<bar>of_int (round_half_even (x / Q)) - x / Q\<bar> * Q
            = \<bar>(of_int (round_half_even (x / Q)) - x / Q) * Q\<bar>"
      using Qpos by (simp add: abs_mult)
    also have "(of_int (round_half_even (x / Q)) - x / Q) * Q = y - x"
      using Qpos by (simp add: y_def field_simps)
    finally show ?thesis .
  qed
  ultimately have err: "\<bar>y - x\<bar> \<le> Q / 2" by simp
  have "\<bar>y\<bar> \<le> \<bar>x\<bar> + Q / 2" using err by linarith
  also have "\<dots> < 2 powi 1023 + 2 powi 970" using assms(2) Q970 Qpos by linarith
  also have "\<dots> < (2::rat) powi 1024" by simp
  finally have "\<bar>y\<bar> < 2 powi 1024" .
  then have "\<not> 2 powi 1024 \<le> y" "\<not> y \<le> - (2 powi 1024)" by linarith+
  then have "fl x = Fin y"
    using assms(1) by (simp add: fl_def Let_def y_def Q_def q_def)
  then show "fl x = Fin (of_int (round_half_even (x / 2 powi (max (ilog2 x - 52) (- 1074))))
                      * 2 powi (max (ilog2 x - 52) (- 1074)))"
    by (simp add: y_def Q_def q_def)
  show "\<bar>of_int (round_half_even (x / 2 powi (max (ilog2 x - 52) (- 1074))))
                      * 2 powi (max (ilog2 x - 52) (- 1074)) - x\<bar>
          \<le> 2 powi (max (ilog2 x - 52) (- 1074)) / 2"
    using err by (simp add: y_def Q_def q_def)
qed

text \<open>In the normal range the relative error is at most \<open>2 ^ -53\<close>.\<close>

lemma fl_relative_error:
  assumes "2 powi (- 1022) \<le> \<bar>x\<bar>" "\<bar>x\<bar> < 2 powi 1023"
  shows "\<exists>y. fl x = Fin y \<and> \<bar>y - x\<bar> \<le> \<bar>x\<bar> / 2 ^ 53"
proof -
  have "(0::rat) < 2 powi (- 1022)" by (rule p2_pos)
  with assms(1) have "0 < \<bar>x\<bar>" by linarith
  then have nz: "x \<noteq> 0" by simp
  note B = ilog2_bounds[OF nz]
  have "(2::rat) powi (- 1022) < 2 powi (ilog2 x + 1)" using assms(1) B(2) by linarith
  then have "- 1022 < ilog2 x + 1" by (simp only: p2_less_iff)
  then have q: "max (ilog2 x - 52) (- 1074) = ilog2 x - 52" by simp
  have "(2::rat) powi (ilog2 x - 52) / 2 = 2 powi (ilog2 x) / 2 ^ 53"
    using p2_diff[of "ilog2 x" 52] by simp
  also have "\<dots> \<le> \<bar>x\<bar> / 2 ^ 53" using B(1) by (simp add: divide_right_mono)
  finally have "(2::rat) powi (ilog2 x - 52) / 2 \<le> \<bar>x\<bar> / 2 ^ 53" .
  with fl_finite[OF nz assms(2)] show ?thesis unfolding q by fastforce
qed

lemma fl_eqI:
  assumes "2 powi e \<le> \<bar>x\<bar>" "\<bar>x\<bar> < 2 powi (e + 1)" "- 1022 \<le> e" "e \<le> 1022"
    and "of_int m - 1 / 2 < x / 2 powi (e - 52)" "x / 2 powi (e - 52) < of_int m + 1 / 2"
  shows "fl x = Fin (of_int m * 2 powi (e - 52))"
proof -
  have e: "ilog2 x = e" using assms(1,2) by (rule ilog2_unique)
  have "(0::rat) < 2 powi e" by simp
  with assms(1) have "0 < \<bar>x\<bar>" by linarith
  then have nz: "x \<noteq> 0" by simp
  have "(2::rat) powi (e + 1) \<le> 2 powi 1023" using assms(4) by (simp only: p2_le_iff)
  with assms(2) have lt: "\<bar>x\<bar> < 2 powi 1023" by linarith
  have q: "max (e - 52) (- 1074) = e - 52" using assms(3) by simp
  have "round_half_even (x / 2 powi (e - 52)) = m"
    using assms(5,6) by (rule round_half_even_eqI)
  with fl_finite(1)[OF nz lt] show ?thesis by (simp add: e q)
qed

lemma fl_exact:
  assumes "x = of_int m * 2 powi k" "\<bar>m\<bar> < 2 ^ 53" "- 1074 \<le> k" "\<bar>x\<bar> < 2 powi 1023"
  shows "fl x = Fin x"
proof (cases "x = 0")
  case True
  then show ?thesis by simp
next
  case nz: False
  define q where "q = max (ilog2 x - 52) (- 1074)"
  note B = ilog2_bounds[OF nz]
  have "\<bar>x\<bar> = of_int \<bar>m\<bar> * 2 powi k" by (simp add: assms(1) abs_mult)
  also have "\<dots> < 2 ^ 53 * 2 powi k"
  proof -
    have "(of_int \<bar>m\<bar> :: rat) < of_int (2 ^ 53)" using assms(2) by (simp only: of_int_less_iff)
    then show ?thesis by simp
  qed
  also have "\<dots> = 2 powi (53 + k)" using p2_add[of 53 k] by simp
  finally have "(2::rat) powi (ilog2 x) < 2 powi (53 + k)" using B(1) by linarith
  then have "ilog2 x < 53 + k" by (simp only: p2_less_iff)
  then have qk: "q \<le> k" using assms(3) by (simp add: q_def)
  have "(2::rat) powi k = 2 powi (k - q) * 2 powi q" using p2_add[of "k - q" q] by simp
  also have "(2::rat) powi (k - q) = of_int (2 ^ nat (k - q))" using qk by (simp add: p2_of_nat)
  finally have "x / 2 powi q = of_int (m * 2 ^ nat (k - q))" by (simp add: assms(1))
  then have "round_half_even (x / 2 powi q) = m * 2 ^ nat (k - q)"
    by (simp only: round_half_even_of_int)
  moreover have "of_int (m * 2 ^ nat (k - q)) * 2 powi q = x"
    using \<open>x / 2 powi q = of_int (m * 2 ^ nat (k - q))\<close> by (simp add: field_simps)
  ultimately show ?thesis
    using fl_finite(1)[OF nz assms(4)] by (simp add: q_def)
qed

lemma fl_of_int_exact:
  assumes "\<bar>n\<bar> < 2 ^ 53"
  shows "fl (of_int n) = Fin (of_int n)"
proof (rule fl_exact[where m = n and k = 0])
  show "(of_int n :: rat) = of_int n * 2 powi 0" by simp
  show "\<bar>n\<bar> < 2 ^ 53" by fact
  show "- 1074 \<le> (0::int)" by simp
  have "(of_int \<bar>n\<bar> :: rat) < of_int (2 ^ 53)" using assms by (simp only: of_int_less_iff)
  then show "\<bar>of_int n :: rat\<bar> < 2 powi 1023" by simp
qed

lemma fl_bounded:
  assumes "\<bar>x\<bar> < 2 powi 1023"
  shows "\<exists>y. fl x = Fin y \<and> \<bar>y\<bar> \<le> 2 * \<bar>x\<bar> + 1"
proof (cases "x = 0")
  case True
  then show ?thesis by simp
next
  case nz: False
  define q where "q = max (ilog2 x - 52) (- 1074)"
  note F = fl_finite[OF nz assms, folded q_def]
  have "(2::rat) powi q \<le> \<bar>x\<bar> + 1"
  proof (cases "ilog2 x - 52 \<le> - 1074")
    case True
    then have "q = - 1074" by (simp add: q_def)
    moreover have "(2::rat) powi (- 1074) \<le> 2 powi 0" by (simp only: p2_le_iff)
    ultimately show ?thesis by simp
  next
    case False
    then have "q = ilog2 x - 52" by (simp add: q_def)
    moreover have "(2::rat) powi (ilog2 x - 52) \<le> 2 powi (ilog2 x)" by (simp only: p2_le_iff)
    ultimately show ?thesis using ilog2_bounds(1)[OF nz] by simp
  qed
  with F(2) have "\<bar>of_int (round_half_even (x / 2 powi q)) * 2 powi q\<bar> \<le> 2 * \<bar>x\<bar> + 1"
    by linarith
  with F(1) show ?thesis by blast
qed

lemma fl_pos_approx:
  assumes "2 powi (- 1022) \<le> x" "x < 2 powi 1023"
  shows "\<exists>y. fl x = Fin y \<and> 0 < y \<and> \<bar>y - x\<bar> \<le> x / 2 ^ 53"
proof -
  have "(0::rat) < 2 powi (- 1022)" by (rule p2_pos)
  with assms(1) have pos: "0 < x" by linarith
  then have ax: "\<bar>x\<bar> = x" by simp
  from fl_relative_error[of x] assms obtain y where y: "fl x = Fin y" "\<bar>y - x\<bar> \<le> x / 2 ^ 53"
    by (auto simp: ax)
  have "x / 2 ^ 53 < x" using pos by (simp add: field_simps)
  with y(2) have "0 < y" by linarith
  with y show ?thesis by blast
qed

text \<open>Quotients and products of image dimensions.\<close>

lemma int_truediv_approx:
  assumes "1 \<le> a" "a < 2 ^ 31" "1 \<le> b" "b < 2 ^ 31"
  shows "\<exists>y. int_truediv a b = Inr (Fin y) \<and> 0 < y
            \<and> \<bar>y - of_int a / of_int b\<bar> \<le> (of_int a / of_int b) / 2 ^ 53"
proof -
  define x :: rat where "x = of_int a / of_int b"
  have ra: "(1::rat) \<le> of_int a" "(of_int a :: rat) < 2 ^ 31"
    using assms(1,2) by (simp_all add: of_int_less_numeral_power_cancel_iff)
  have rb: "(1::rat) \<le> of_int b" "(of_int b :: rat) < 2 ^ 31"
    using assms(3,4) by (simp_all add: of_int_less_numeral_power_cancel_iff)
  have lo: "1 / 2 ^ 31 \<le> x"
  proof -
    have "1 / 2 ^ 31 \<le> 1 / (of_int b :: rat)" using rb by (simp add: field_simps)
    also have "\<dots> \<le> x" unfolding x_def using ra rb by (simp add: field_simps)
    finally show ?thesis .
  qed
  have hi: "x < 2 ^ 31"
  proof -
    have "x \<le> of_int a" unfolding x_def using ra rb by (simp add: field_simps)
    with ra show ?thesis by linarith
  qed
  have "(2::rat) powi (- 1022) \<le> 2 powi (- 31)" by (simp only: p2_le_iff)
  also have "(2::rat) powi (- 31) = 1 / 2 ^ 31" by (simp add: power_int_minus_divide)
  finally have 1: "2 powi (- 1022) \<le> x" using lo by linarith
  have "(2::rat) powi 31 \<le> 2 powi 1023" by (simp only: p2_le_iff)
  then have 2: "x < 2 powi 1023" using hi by simp
  from fl_pos_approx[OF 1 2] obtain y where "fl x = Fin y" "0 < y" "\<bar>y - x\<bar> \<le> x / 2 ^ 53"
    by blast
  moreover have "b \<noteq> 0" using assms(3) by simp
  ultimately show ?thesis by (auto simp: int_truediv_def x_def)
qed

lemma float_of_int_exact:
  assumes "\<bar>n\<bar> < 2 ^ 53"
  shows "float_of_int n = Inr (Fin (of_int n))"
  by (simp add: float_of_int_def fl_of_int_exact[OF assms])

lemma scaled_dim_approx:
  assumes w: "1 \<le> w" "w < 2 ^ 31" and s: "1 / 2 ^ 32 \<le> s" "s \<le> 2 ^ 32"
  shows "\<exists>p. ebind (int_mul_float w (Fin s)) py_int = Inr \<lfloor>p\<rfloor> \<and> 0 < p
            \<and> \<bar>p - of_int w * s\<bar> \<le> of_int w * s / 2 ^ 53"
proof -
  define x :: rat where "x = of_int w * s"
  have rw: "(1::rat) \<le> of_int w" "(of_int w :: rat) < 2 ^ 31"
    using w by (simp_all add: of_int_less_numeral_power_cancel_iff)
  have "\<bar>w\<bar> < 2 ^ 53" using w by simp
  then have conv: "float_of_int w = Inr (Fin (of_int w))" by (rule float_of_int_exact)
  have "(0::rat) < 1 / 2 ^ 32" by simp
  with s(1) have spos: "0 < s" by linarith
  have lo: "1 / 2 ^ 32 \<le> x"
  proof -
    have "s \<le> of_int w * s" using rw(1) spos by simp
    with s(1) show ?thesis unfolding x_def by linarith
  qed
  have hi: "x < 2 ^ 63"
  proof -
    have "of_int w * s \<le> of_int w * 2 ^ 32" using s(2) rw by (intro mult_left_mono) simp_all
    also have "\<dots> < 2 ^ 31 * 2 ^ 32" using rw(2) by (intro mult_strict_right_mono) simp_all
    finally show ?thesis unfolding x_def by simp
  qed
  have "(2::rat) powi (- 1022) \<le> 2 powi (- 32)" by (simp only: p2_le_iff)
  also have "(2::rat) powi (- 32) = 1 / 2 ^ 32" by (simp add: power_int_minus_divide)
  finally have 1: "2 powi (- 1022) \<le> x" using lo by linarith
  have "(2::rat) powi 63 \<le> 2 powi 1023" by (simp only: p2_le_iff)
  then have 2: "x < 2 powi 1023" using hi by simp
  from fl_pos_approx[OF 1 2] obtain p where p: "fl x = Fin p" "0 < p" "\<bar>p - x\<bar> \<le> x / 2 ^ 53"
    by blast
  have "ebind (int_mul_float w (Fin s)) py_int = Inr \<lfloor>p\<rfloor>"
    using p(1,2) by (simp add: int_mul_float_def conv x_def)
  with p show ?thesis unfolding x_def by blast
qed

text \<open>Rounding keeps the sign.\<close>

lemma round_half_even_nonneg: "0 \<le> x \<Longrightarrow> 0 \<le> round_half_even x"
proof -
  assume "0 \<le> x"
  then have "0 \<le> \<lfloor>x\<rfloor>" by simp
  then show ?thesis by (simp add: round_half_even_def Let_def)
qed

lemma fl_nonneg:
  assumes "0 \<le> x" "fl x = Fin y"
  shows "0 \<le> y"
proof (cases "x = 0")
  case True
  with assms(2) show ?thesis by simp
next
  case False
  define q where "q = max (ilog2 x - 52) (- 1074)"
  have "0 \<le> x / 2 powi q" using assms(1) by simp
  then have "0 \<le> round_half_even (x / 2 powi q)" by (rule round_half_even_nonneg)
  then have "(0::rat) \<le> of_int (round_half_even (x / 2 powi q)) * 2 powi q" by simp
  moreover have "y = of_int (round_half_even (x / 2 powi q)) * 2 powi q"
    using assms(2) False by (simp add: fl_def Let_def q_def split: if_splits)
  ultimately show ?thesis by simp
qed

section \<open>The size of the resized image\<close>

lemma min_approx:
  fixes a b A B u :: rat
  assumes "0 < A" "0 < B" "0 \<le> u" "u \<le> 1" "\<bar>a - A\<bar> \<le> A * u" "\<bar>b - B\<bar> \<le> B * u"
  shows "\<bar>min a b - min A B\<bar> \<le> min A B * u"
proof (cases "A \<le> B")
  case True
  then have 1: "A * u \<le> B * u" using assms(3) by (simp add: mult_right_mono)
  have "A * (1 - u) \<le> B * (1 - u)" using True assms(4) by (simp add: mult_right_mono)
  then have 2: "A - A * u \<le> B - B * u" by (simp add: algebra_simps)
  from True have "min A B = A" by simp
  then show ?thesis using 1 2 assms(5,6) by (simp add: min_def) linarith
next
  case False
  then have BA: "B \<le> A" by simp
  then have 1: "B * u \<le> A * u" using assms(3) by (simp add: mult_right_mono)
  have "B * (1 - u) \<le> A * (1 - u)" using BA assms(4) by (simp add: mult_right_mono)
  then have 2: "B - B * u \<le> A - A * u" by (simp add: algebra_simps)
  from False have "min A B = B" by simp
  then show ?thesis using 1 2 assms(5,6) by (simp add: min_def) linarith
qed

lemma float_min_Fin: "float_min (Fin a) (Fin b) = Fin (min a b)"
  by (auto simp: float_min_def min_def)

lemma exact_scale_bounds:
  assumes "image_dim w" "image_dim h" "image_dim cw" "image_dim ch"
  shows "1 / 2 ^ 31 \<le> exact_scale (w, h) (cw, ch)" "exact_scale (w, h) (cw, ch) < 2 ^ 31"
    "of_int w * exact_scale (w, h) (cw, ch) \<le> of_int cw"
    "of_int h * exact_scale (w, h) (cw, ch) \<le> of_int ch"
proof -
  have r: "(1::rat) \<le> of_int w" "(of_int w :: rat) < 2 ^ 31"
      "(1::rat) \<le> of_int h" "(of_int h :: rat) < 2 ^ 31"
      "(1::rat) \<le> of_int cw" "(of_int cw :: rat) < 2 ^ 31"
      "(1::rat) \<le> of_int ch" "(of_int ch :: rat) < 2 ^ 31"
    using assms by (simp_all add: image_dim_def of_int_less_numeral_power_cancel_iff)
  have q: "1 / 2 ^ 31 \<le> (of_int cw :: rat) / of_int w" "(of_int cw :: rat) / of_int w < 2 ^ 31"
    if "(1::rat) \<le> of_int w" "(of_int w :: rat) < 2 ^ 31" "(1::rat) \<le> of_int cw" "(of_int cw :: rat) < 2 ^ 31"
    for w cw :: int
  proof -
    have "1 / 2 ^ 31 \<le> 1 / (of_int w :: rat)" using that by (simp add: field_simps)
    also have "\<dots> \<le> of_int cw / of_int w" using that by (simp add: field_simps)
    finally show "1 / 2 ^ 31 \<le> (of_int cw :: rat) / of_int w" .
    have "(of_int cw :: rat) / of_int w \<le> of_int cw" using that by (simp add: field_simps)
    with that show "(of_int cw :: rat) / of_int w < 2 ^ 31" by linarith
  qed
  note qw = q[OF r(1,2,5,6)] and qh = q[OF r(3,4,7,8)]
  show "1 / 2 ^ 31 \<le> exact_scale (w, h) (cw, ch)" using qw(1) qh(1) by (simp add: exact_scale_def)
  show "exact_scale (w, h) (cw, ch) < 2 ^ 31" using qw(2) by (simp add: exact_scale_def min_def)
  have "of_int w * exact_scale (w, h) (cw, ch) \<le> of_int w * (of_int cw / of_int w)"
    using r(1) by (intro mult_left_mono) (simp_all add: exact_scale_def)
  then show "of_int w * exact_scale (w, h) (cw, ch) \<le> of_int cw" using r(1) by simp
  have "of_int h * exact_scale (w, h) (cw, ch) \<le> of_int h * (of_int ch / of_int h)"
    using r(3) by (intro mult_left_mono) (simp_all add: exact_scale_def)
  then show "of_int h * exact_scale (w, h) (cw, ch) \<le> of_int ch" using r(3) by simp
qed

lemma new_size_approx:
  assumes "image_dim w" "image_dim h" "image_dim cw" "image_dim ch"
  shows "\<exists>pw ph. new_size (w, h) (cw, ch) = Inr (max 1 \<lfloor>pw\<rfloor>, max 1 \<lfloor>ph\<rfloor>)
           \<and> \<bar>pw - of_int w * exact_scale (w, h) (cw, ch)\<bar>
               \<le> of_int w * exact_scale (w, h) (cw, ch) / 2 ^ 51
           \<and> \<bar>ph - of_int h * exact_scale (w, h) (cw, ch)\<bar>
               \<le> of_int h * exact_scale (w, h) (cw, ch) / 2 ^ 51"
proof -
  define S where "S = exact_scale (w, h) (cw, ch)"
  note d = assms[unfolded image_dim_def]
  note SB = exact_scale_bounds[OF assms, folded S_def]
  have r: "(1::rat) \<le> of_int w" "(1::rat) \<le> of_int h" "(1::rat) \<le> of_int cw" "(1::rat) \<le> of_int ch"
    using d by simp_all
  from int_truediv_approx[of cw w] d obtain a where
    a: "int_truediv cw w = Inr (Fin a)" "0 < a"
       "\<bar>a - of_int cw / of_int w\<bar> \<le> (of_int cw / of_int w) / 2 ^ 53" by blast
  from int_truediv_approx[of ch h] d obtain b where
    b: "int_truediv ch h = Inr (Fin b)" "0 < b"
       "\<bar>b - of_int ch / of_int h\<bar> \<le> (of_int ch / of_int h) / 2 ^ 53" by blast
  define s where "s = min a b"
  have "\<bar>min a b - min (of_int cw / of_int w) (of_int ch / of_int h)\<bar>
          \<le> min (of_int cw / of_int w) (of_int ch / of_int h) * (1 / 2 ^ 53)"
    using a(3) b(3) r by (intro min_approx) simp_all
  then have sS: "\<bar>s - S\<bar> \<le> S / 2 ^ 53" by (simp add: s_def S_def exact_scale_def)
  have "(0::rat) < 1 / 2 ^ 31" by simp
  with SB(1) have Spos: "0 < S" by linarith
  have S53: "S / 2 ^ 53 \<le> S / 2" using Spos by (simp add: field_simps)
  have s_half: "S / 2 \<le> s" "s \<le> S + S / 2" using sS S53 by linarith+
  have "(1::rat) / 2 ^ 32 = (1 / 2 ^ 31) / 2" by simp
  also have "\<dots> \<le> S / 2" using SB(1) by (intro divide_right_mono) simp_all
  finally have s_lo: "1 / 2 ^ 32 \<le> s" using s_half(1) by linarith
  have "S + S / 2 \<le> 2 * S" using Spos by simp
  then have s2: "s \<le> 2 * S" using s_half(2) by linarith
  have "2 * S \<le> 2 * 2 ^ 31" using SB(2) by simp
  then have s_hi: "s \<le> 2 ^ 32" using s2 by simp
  have comb: "\<bar>p - of_int n * S\<bar> \<le> of_int n * S / 2 ^ 51"
    if n: "(1::rat) \<le> of_int n" and p: "\<bar>p - of_int n * s\<bar> \<le> of_int n * s / 2 ^ 53" for n :: int and p :: rat
  proof -
    have npos: "(0::rat) \<le> of_int n" using n by linarith
    have "\<bar>of_int n * s - of_int n * S\<bar> = of_int n * \<bar>s - S\<bar>"
      using npos by (simp add: abs_mult flip: right_diff_distrib)
    also have "\<dots> \<le> of_int n * (S / 2 ^ 53)" using sS npos by (intro mult_left_mono)
    finally have 1: "\<bar>of_int n * s - of_int n * S\<bar> \<le> of_int n * S / 2 ^ 53" by simp
    have "of_int n * s \<le> of_int n * (2 * S)" using s2 npos by (intro mult_left_mono)
    then have 2: "of_int n * s / 2 ^ 53 \<le> 2 * (of_int n * S / 2 ^ 53)" by (simp add: field_simps)
    have "\<bar>p - of_int n * S\<bar> \<le> 3 * (of_int n * S / 2 ^ 53)" using p 1 2 by linarith
    also have "\<dots> \<le> of_int n * S / 2 ^ 51"
    proof -
      have "0 \<le> of_int n * S" using npos Spos by simp
      then show ?thesis by (simp add: field_simps)
    qed
    finally show ?thesis .
  qed
  from scaled_dim_approx[OF d(1)[THEN conjunct1] d(1)[THEN conjunct2] s_lo s_hi] obtain pw where
    pw: "ebind (int_mul_float w (Fin s)) py_int = Inr \<lfloor>pw\<rfloor>"
        "\<bar>pw - of_int w * s\<bar> \<le> of_int w * s / 2 ^ 53" by blast
  from scaled_dim_approx[OF d(2)[THEN conjunct1] d(2)[THEN conjunct2] s_lo s_hi] obtain ph where
    ph: "ebind (int_mul_float h (Fin s)) py_int = Inr \<lfloor>ph\<rfloor>"
        "\<bar>ph - of_int h * s\<bar> \<le> of_int h * s / 2 ^ 53" by blast
  have "new_size (w, h) (cw, ch) = Inr (max 1 \<lfloor>pw\<rfloor>, max 1 \<lfloor>ph\<rfloor>)"
    by (simp add: new_size_def a(1) b(1) float_min_Fin pw(1) ph(1) flip: s_def)
  moreover note comb[OF r(1) pw(2)] comb[OF r(2) ph(2)]
  ultimately show ?thesis unfolding S_def by blast
qed

text \<open>The resized image is not larger than the canvas.\<close>

lemma new_size_within_canvas:
  assumes "image_dim w" "image_dim h" "image_dim cw" "image_dim ch"
  shows "\<exists>nw nh. new_size (w, h) (cw, ch) = Inr (nw, nh)
           \<and> 1 \<le> nw \<and> nw \<le> cw \<and> 1 \<le> nh \<and> nh \<le> ch"
proof -
  define S where "S = exact_scale (w, h) (cw, ch)"
  from new_size_approx[OF assms] obtain pw ph where
    n: "new_size (w, h) (cw, ch) = Inr (max 1 \<lfloor>pw\<rfloor>, max 1 \<lfloor>ph\<rfloor>)"
    and pw: "\<bar>pw - of_int w * S\<bar> \<le> of_int w * S / 2 ^ 51"
    and ph: "\<bar>ph - of_int h * S\<bar> \<le> of_int h * S / 2 ^ 51"
    unfolding S_def by blast
  note SB = exact_scale_bounds[OF assms, folded S_def]
  have below: "\<lfloor>p\<rfloor> \<le> c"
    if p: "\<bar>p - x\<bar> \<le> x / 2 ^ 51" and x: "x \<le> of_int c" and c: "image_dim c" for p x :: rat and c :: int
  proof -
    have "(of_int c :: rat) < 2 ^ 31" using c by (simp add: image_dim_def of_int_less_numeral_power_cancel_iff)
    then have "(of_int c :: rat) / 2 ^ 51 < 1" by simp
    moreover have "x / 2 ^ 51 \<le> of_int c / 2 ^ 51" using x by (simp add: divide_right_mono)
    ultimately have "p < of_int c + 1" using p x by linarith
    then have "p < of_int (c + 1)" by simp
    then have "\<lfloor>p\<rfloor> < c + 1" by (simp only: floor_less_iff)
    then show ?thesis by simp
  qed
  have 1: "max 1 \<lfloor>pw\<rfloor> \<le> cw" using below[OF pw SB(3) assms(3)] assms(3) by (simp add: image_dim_def)
  have 2: "max 1 \<lfloor>ph\<rfloor> \<le> ch" using below[OF ph SB(4) assms(4)] assms(4) by (simp add: image_dim_def)
  show ?thesis using n 1 2 by simp
qed

text \<open>The size on concrete inputs, from the values of the four roundings.\<close>

lemma new_size_eval:
  assumes "fl (of_int cw / of_int w) = Fin a" "fl (of_int ch / of_int h) = Fin b"
    and "fl (of_int w * min a b) = Fin pw" "fl (of_int h * min a b) = Fin ph"
    and "0 < w" "w < 2 ^ 53" "0 < h" "h < 2 ^ 53" "0 \<le> pw" "0 \<le> ph"
  shows "new_size (w, h) (cw, ch) = Inr (max 1 \<lfloor>pw\<rfloor>, max 1 \<lfloor>ph\<rfloor>)"
proof -
  have c: "float_of_int w = Inr (Fin (of_int w))" "float_of_int h = Inr (Fin (of_int h))"
    using assms(5-8) by (simp_all add: float_of_int_exact)
  have "int_truediv cw w = Inr (Fin a)" "int_truediv ch h = Inr (Fin b)"
    using assms(1,2,5,7) by (simp_all add: int_truediv_def)
  then show ?thesis
    using assms(9,10)
    by (simp add: new_size_def float_min_Fin int_mul_float_def c assms(3,4))
qed
section \<open>Frames of one size\<close>

lemma ebind_eq_Inr: "ebind m f = Inr y \<longleftrightarrow> (\<exists>x. m = Inr x \<and> f x = Inr y)"
  by (cases m) simp_all

lemma img_size_paste [simp]: "img_size (paste canvas img offset) = img_size canvas"
  by (simp add: paste_def img_size_def)

lemma image_new_size: "image_new w sz color = Inr canvas \<Longrightarrow> img_size canvas = sz"
  by (auto simp: image_new_def img_size_def split: if_splits)

lemma resize_size: "resize w img sz = Inr out \<Longrightarrow> img_size out = sz"
  by (auto simp: resize_def img_size_def split: if_splits)

lemma fit_to_canvas_size:
  assumes "fit_to_canvas w img sz keep_aspect bgcolor = Inr out"
  shows "img_size out = sz"
proof (cases keep_aspect)
  case True
  with assms obtain ns resized canvas where
    "image_new w sz bgcolor = Inr canvas" "out = paste canvas resized (paste_offset sz ns)"
    by (auto simp: fit_to_canvas_def ebind_eq_Inr)
  then show ?thesis by (simp add: image_new_size)
next
  case False
  with assms show ?thesis by (simp add: fit_to_canvas_def resize_size)
qed

lemma load_loop_sizes:
  assumes "load_loop w target_size (Some b) paths = (Inr frames, ev)"
  shows "length frames = length paths \<and> list_all (\<lambda>f. img_size f = b) frames"
  using assms
proof (induction paths arbitrary: frames ev)
  case Nil
  then show ?case by simp
next
  case (Cons p ps)
  from Cons.prems obtain img frame frames' ev' where
    d: "decode w p = Some img"
    and f: "fit_to_canvas w img b True (0, 0, 0, 0) = Inr frame"
    and r: "load_loop w target_size (Some b) ps = (Inr frames', ev')"
    and fr: "frames = frame # frames'"
    by (auto simp: Let_def split: option.splits sum.splits prod.splits)
  from Cons.IH[OF r] fit_to_canvas_size[OF f] fr show ?case by simp
qed

text \<open>
  C1. Whatever the sizes of the source images, the frames that \<open>load_frames\<close> returns
  are as many as the paths and all have the resolved canvas size: the explicit target size
  when one is given, otherwise the size of the first image.
\<close>

theorem load_frames_uniform_size:
  assumes "load_frames w paths target_size = (Inr frames, ev)"
  shows "length frames = length paths
         \<and> (\<forall>f \<in> set frames. Some (img_size f) = canvas_size w paths target_size)"
proof (cases paths)
  case Nil
  with assms show ?thesis by (simp add: load_frames_def)
next
  case (Cons p ps)
  define base where "base img = (case target_size of Some t \<Rightarrow> t | None \<Rightarrow> img_size img)" for img
  from assms Cons obtain img frame frames' ev' where
    d: "decode w p = Some img"
    and f: "fit_to_canvas w img (base img) True (0, 0, 0, 0) = Inr frame"
    and r: "load_loop w target_size (Some (base img)) ps = (Inr frames', ev')"
    and fr: "frames = frame # frames'"
    by (auto simp: load_frames_def base_def Let_def split: option.splits sum.splits prod.splits)
  have c: "canvas_size w (p # ps) target_size = Some (base img)"
    by (simp add: canvas_size_def d base_def split: option.splits)
  from load_loop_sizes[OF r] fit_to_canvas_size[OF f] fr
  show ?thesis by (auto simp: c Cons list_all_iff)
qed

text \<open>
  \<open>load_frames\<close> does return frames when every path decodes to an image with proper
  dimensions, the canvas has proper dimensions too, and Pillow can allocate every image that
  is not larger than the canvas.
\<close>

lemma new_size_succeeds:
  assumes "image_dim w" "image_dim h" "image_dim cw" "image_dim ch"
  shows "\<exists>nw nh. new_size (w, h) (cw, ch) = Inr (nw, nh) \<and> 1 \<le> nw \<and> 1 \<le> nh"
  using new_size_approx[OF assms] by force

lemma resize_succeeds:
  assumes "1 \<le> fst ns" "1 \<le> snd ns" "fst ns < 2 ^ 31" "snd ns < 2 ^ 31" "can_allocate w ns"
  shows "\<exists>resized. resize w img ns = Inr resized"
  using assms by (simp add: resize_def c_int_def)

lemma image_new_succeeds:
  assumes "0 \<le> fst sz" "0 \<le> snd sz" "fst sz < 2 ^ 31" "snd sz < 2 ^ 31" "can_allocate w sz"
  shows "image_new w sz color = Inr \<lparr>width = fst sz, height = snd sz, pix = (\<lambda>x y. color)\<rparr>"
  using assms by (simp add: image_new_def c_int_def)

lemma fit_to_canvas_succeeds:
  assumes "image_dim (width img)" "image_dim (height img)" "image_dim (fst sz)" "image_dim (snd sz)"
    and room: "\<And>ns. fst ns \<le> fst sz \<Longrightarrow> snd ns \<le> snd sz \<Longrightarrow> can_allocate w ns"
  shows "\<exists>out. fit_to_canvas w img sz True bgcolor = Inr out"
proof -
  obtain cw ch where sz: "sz = (cw, ch)" by (cases sz)
  from new_size_within_canvas[OF assms(1,2), of cw ch] assms(3,4) obtain nw nh where
    n: "new_size (img_size img) (cw, ch) = Inr (nw, nh)" "1 \<le> nw" "nw \<le> cw" "1 \<le> nh" "nh \<le> ch"
    by (auto simp: img_size_def sz)
  have c: "cw < 2 ^ 31" "ch < 2 ^ 31" "0 \<le> cw" "0 \<le> ch"
    using assms(3,4) by (simp_all add: sz image_dim_def)
  have "can_allocate w (nw, nh)" using n by (intro room) (simp_all add: sz)
  with resize_succeeds[of "(nw, nh)" w img] n c obtain resized where
    r: "resize w img (nw, nh) = Inr resized" by auto
  have "can_allocate w (cw, ch)" by (intro room) (simp_all add: sz)
  with image_new_succeeds[of "(cw, ch)" w bgcolor] c obtain canvas where
    "image_new w (cw, ch) bgcolor = Inr canvas" by auto
  then show ?thesis by (simp add: fit_to_canvas_def sz n r)
qed

lemma load_loop_succeeds:
  assumes "list_all (loadable w) paths" "image_dim (fst b)" "image_dim (snd b)"
    and room: "\<And>ns. fst ns \<le> fst b \<Longrightarrow> snd ns \<le> snd b \<Longrightarrow> can_allocate w ns"
  shows "\<exists>frames. load_loop w target_size (Some b) paths = (Inr frames, map Open_image paths)"
  using assms(1)
proof (induction paths)
  case Nil
  then show ?case by simp
next
  case (Cons p ps)
  from Cons.prems obtain img where
    d: "decode w p = Some img" "image_dim (width img)" "image_dim (height img)"
    by (auto simp: loadable_def split: option.splits)
  from fit_to_canvas_succeeds[OF d(2,3) assms(2,3) room, of "(0, 0, 0, 0)"] obtain frame where
    f: "fit_to_canvas w img b True (0, 0, 0, 0) = Inr frame"
    by blast
  from Cons obtain frames where
    "load_loop w target_size (Some b) ps = (Inr frames, map Open_image ps)" by auto
  then show ?case by (simp add: d(1) f)
qed

lemma load_frames_succeeds:
  assumes "list_all (loadable w) paths" "canvas_size w paths target_size = Some b"
    and "image_dim (fst b)" "image_dim (snd b)"
    and room: "\<And>ns. fst ns \<le> fst b \<Longrightarrow> snd ns \<le> snd b \<Longrightarrow> can_allocate w ns"
  shows "\<exists>frames. load_frames w paths target_size = (Inr frames, map Open_image paths)"
proof (cases paths)
  case Nil
  then show ?thesis by (simp add: load_frames_def)
next
  case (Cons p ps)
  from assms(1) Cons obtain img where
    d: "decode w p = Some img" "image_dim (width img)" "image_dim (height img)"
    and ps: "list_all (loadable w) ps"
    by (auto simp: loadable_def split: option.splits)
  have base: "b = (case target_size of Some t \<Rightarrow> t | None \<Rightarrow> img_size img)"
    using assms(2) by (simp add: canvas_size_def Cons d(1) split: option.splits)
  from fit_to_canvas_succeeds[OF d(2,3) assms(3,4) room, of "(0, 0, 0, 0)"] obtain frame where
    f: "fit_to_canvas w img b True (0, 0, 0, 0) = Inr frame" by blast
  from load_loop_succeeds[OF ps assms(3,4) room] obtain frames where
    "load_loop w target_size (Some b) ps = (Inr frames, map Open_image ps)" by blast
  then show ?thesis
    using f by (simp add: load_frames_def Cons d(1) Let_def flip: base)
qed

lemma example_frames_loadable:
  "list_all (loadable example_world) [''frames/img1.png'', ''frames/img2.png'', ''frames/img10.png'']"
  by (simp add: loadable_def example_world_def example_image_def image_dim_def)

theorem load_frames_uniform_size_witness:
  "\<exists>frames. load_frames example_world
       [''frames/img1.png'', ''frames/img2.png'', ''frames/img10.png''] (Some (60, 60))
       = (Inr frames, [Open_image ''frames/img1.png'', Open_image ''frames/img2.png'',
                       Open_image ''frames/img10.png''])
     \<and> length frames = 3 \<and> list_all (\<lambda>f. img_size f = (60, 60)) frames"
proof -
  have c: "canvas_size example_world
       [''frames/img1.png'', ''frames/img2.png'', ''frames/img10.png''] (Some (60, 60)) = Some (60, 60)"
    by (simp add: canvas_size_def)
  have "\<exists>frames. load_frames example_world
       [''frames/img1.png'', ''frames/img2.png'', ''frames/img10.png''] (Some (60, 60))
       = (Inr frames, map Open_image [''frames/img1.png'', ''frames/img2.png'', ''frames/img10.png''])"
    by (rule load_frames_succeeds[OF example_frames_loadable c])
      (simp_all add: image_dim_def example_world_def)
  then obtain frames where
    l: "load_frames example_world
       [''frames/img1.png'', ''frames/img2.png'', ''frames/img10.png''] (Some (60, 60))
       = (Inr frames, map Open_image [''frames/img1.png'', ''frames/img2.png'', ''frames/img10.png''])"
    by blast
  from load_frames_uniform_size[OF l] l show ?thesis
    by (auto simp: canvas_size_def list_all_iff)
qed

section \<open>The resized image and the canvas\<close>

text \<open>
  C10 as claimed fails for a canvas too large for double precision: a 1 by 1 image on a
  square canvas of \<open>2 ^ 54 + 3\<close> pixels a side gets the new width and height
  \<open>2 ^ 54 + 4\<close>, since the quotient is rounded to the nearest double, and the offsets
  \<open>-1\<close>.
\<close>

theorem resized_image_exceeds_canvas_counterexample:
  "new_size (1, 1) (18014398509481987, 18014398509481987)
     = Inr (18014398509481988, 18014398509481988)
   \<and> paste_offset (18014398509481987, 18014398509481987) (18014398509481988, 18014398509481988)
     = (- 1, - 1)"
proof -
  have 1: "fl (of_int 18014398509481987 / of_int 1) = Fin 18014398509481988"
    using fl_eqI[of 54 18014398509481987 4503599627370497] by simp
  have 2: "fl (of_int 1 * min 18014398509481988 18014398509481988) = Fin 18014398509481988"
    using fl_exact[of 18014398509481988 4503599627370497 2] by simp
  have "new_size (1, 1) (18014398509481987, 18014398509481987)
          = Inr (max 1 \<lfloor>18014398509481988 :: rat\<rfloor>, max 1 \<lfloor>18014398509481988 :: rat\<rfloor>)"
    by (rule new_size_eval[OF 1 1 2 2]) simp_all
  then show ?thesis by (simp add: paste_offset_def)
qed

text \<open>
  C10, amended. For an image and a canvas whose dimensions are at least 1 and below
  \<open>2 ^ 31\<close>, the resized image is at least one pixel and at most the canvas each way, both
  paste offsets are non-negative, and the pasted box ends inside the canvas.
\<close>

theorem resized_image_within_canvas:
  assumes "image_dim w" "image_dim h" "image_dim cw" "image_dim ch"
  shows "\<exists>nw nh. new_size (w, h) (cw, ch) = Inr (nw, nh)
           \<and> 1 \<le> nw \<and> nw \<le> cw \<and> 1 \<le> nh \<and> nh \<le> ch
           \<and> 0 \<le> fst (paste_offset (cw, ch) (nw, nh))
           \<and> 0 \<le> snd (paste_offset (cw, ch) (nw, nh))
           \<and> fst (paste_offset (cw, ch) (nw, nh)) + nw \<le> cw
           \<and> snd (paste_offset (cw, ch) (nw, nh)) + nh \<le> ch"
proof -
  from new_size_within_canvas[OF assms] obtain nw nh where
    n: "new_size (w, h) (cw, ch) = Inr (nw, nh)" "1 \<le> nw" "nw \<le> cw" "1 \<le> nh" "nh \<le> ch"
    by blast
  have off: "0 \<le> (c - n) div 2 \<and> (c - n) div 2 + n \<le> c" if "n \<le> c" for c n :: int
    using that by linarith
  show ?thesis
    using n off[OF n(3)] off[OF n(5)] by (simp add: paste_offset_def)
qed

lemma new_size_80_40: "new_size (80, 40) (60, 60) = Inr (60, 30)"
proof -
  have 1: "fl (of_int 60 / of_int 80) = Fin (3 / 4)"
    using fl_exact[of "3 / 4" 3 "- 2"] by simp
  have 2: "fl (of_int 60 / of_int 40) = Fin (3 / 2)"
    using fl_exact[of "3 / 2" 3 "- 1"] by simp
  have 3: "fl (of_int 80 * min (3 / 4) (3 / 2)) = Fin 60"
    using fl_of_int_exact[of 60] by simp
  have 4: "fl (of_int 40 * min (3 / 4) (3 / 2)) = Fin 30"
    using fl_of_int_exact[of 30] by simp
  have "new_size (80, 40) (60, 60) = Inr (max 1 \<lfloor>60 :: rat\<rfloor>, max 1 \<lfloor>30 :: rat\<rfloor>)"
    by (rule new_size_eval[OF 1 2 3 4]) simp_all
  then show ?thesis by simp
qed

theorem resized_image_within_canvas_witness:
  "image_dim 80 \<and> image_dim 40 \<and> image_dim 60
   \<and> new_size (80, 40) (60, 60) = Inr (60, 30)
   \<and> paste_offset (60, 60) (60, 30) = (0, 15)
   \<and> (\<exists>nw nh. new_size (80, 40) (60, 60) = Inr (nw, nh)
           \<and> 1 \<le> nw \<and> nw \<le> 60 \<and> 1 \<le> nh \<and> nh \<le> 60
           \<and> 0 \<le> fst (paste_offset (60, 60) (nw, nh))
           \<and> 0 \<le> snd (paste_offset (60, 60) (nw, nh))
           \<and> fst (paste_offset (60, 60) (nw, nh)) + nw \<le> 60
           \<and> snd (paste_offset (60, 60) (nw, nh)) + nh \<le> 60)"
  using resized_image_within_canvas [of 80 40 60 60] new_size_80_40
  by (simp add: image_dim_def paste_offset_def)
section \<open>An image that already fits\<close>

lemma fl_one [simp]: "fl 1 = Fin 1"
  using fl_of_int_exact[of 1] by simp

lemma new_size_same:
  assumes "image_dim w" "image_dim h"
  shows "new_size (w, h) (w, h) = Inr (w, h)"
proof -
  have d: "1 \<le> w" "w < 2 ^ 31" "1 \<le> h" "h < 2 ^ 31" using assms by (simp_all add: image_dim_def)
  have 1: "int_truediv w w = Inr (Fin 1)" "int_truediv h h = Inr (Fin 1)"
    using d by (simp_all add: int_truediv_def)
  have c: "float_of_int w = Inr (Fin (of_int w))" "float_of_int h = Inr (Fin (of_int h))"
    using d by (simp_all add: float_of_int_exact)
  have f: "fl (of_int w) = Fin (of_int w)" "fl (of_int h) = Fin (of_int h)"
    using d by (simp_all add: fl_of_int_exact)
  have "ebind (int_mul_float w (Fin 1)) py_int = Inr w" "ebind (int_mul_float h (Fin 1)) py_int = Inr h"
    using d by (simp_all add: int_mul_float_def c f)
  then show ?thesis using d by (simp add: new_size_def 1 float_min_Fin)
qed

text \<open>
  C8 as claimed fails for an image without pixels: for an image 0 wide and 5 high, on a
  canvas of its own size, the scale is \<open>0 / 0\<close> and \<open>fit_to_canvas\<close> raises
  \<open>ZeroDivisionError\<close>.
\<close>

theorem fit_to_canvas_empty_image_counterexample:
  "img_size (example_image 0 5) = (0, 5)
   \<and> fit_to_canvas example_world (example_image 0 5) (0, 5) True (0, 0, 0, 0)
       = Inl ZeroDivisionError"
  by (simp add: fit_to_canvas_def new_size_def int_truediv_def img_size_def example_image_def)

text \<open>
  C8, amended. An image whose width and height are at least 1 (and below \<open>2 ^ 31\<close>), on a
  canvas of its own size that Pillow can allocate, is not resampled: the computed size is
  its own, the paste offset is \<open>(0, 0)\<close>, the result has the same size and the same
  pixel at every coordinate of the image, and fitting the result again returns it unchanged.
\<close>

theorem fit_to_canvas_same_size:
  assumes "image_dim (width img)" "image_dim (height img)" "can_allocate w (img_size img)"
  shows "new_size (img_size img) (img_size img) = Inr (img_size img)
         \<and> paste_offset (img_size img) (img_size img) = (0, 0)
         \<and> (\<exists>out. fit_to_canvas w img (img_size img) True bgcolor = Inr out
                \<and> img_size out = img_size img
                \<and> (\<forall>x y. 0 \<le> x \<and> x < width img \<and> 0 \<le> y \<and> y < height img
                      \<longrightarrow> pix out x y = pix img x y)
                \<and> fit_to_canvas w out (img_size img) True bgcolor = Inr out)"
proof -
  define out :: image where
    "out = \<lparr>width = width img, height = height img,
            pix = (\<lambda>x y. if 0 \<le> x \<and> x < width img \<and> 0 \<le> y \<and> y < height img
                          then pix img x y else bgcolor)\<rparr>"
  have n: "new_size (img_size img) (img_size img) = Inr (img_size img)"
    using new_size_same[OF assms(1,2)] by (simp add: img_size_def)
  have o: "paste_offset (img_size img) (img_size img) = (0, 0)"
    by (simp add: paste_offset_def)
  have nn: "\<not> (width img < 0 \<or> height img < 0)"
      "c_int (width img)" "c_int (height img)" "can_allocate w (width img, height img)"
    using assms by (simp_all add: image_dim_def c_int_def img_size_def)
  have 1: "fit_to_canvas w img (img_size img) True bgcolor = Inr out"
    using nn
    by (simp add: fit_to_canvas_def n[unfolded img_size_def] o[unfolded img_size_def]
        resize_def image_new_def paste_def paste_offset_def out_def img_size_def)
      (auto simp: fun_eq_iff)
  have so: "img_size out = img_size img" by (simp add: out_def img_size_def)
  have n': "new_size (img_size out) (img_size img) = Inr (img_size img)"
    using n by (simp add: so)
  have 2: "fit_to_canvas w out (img_size img) True bgcolor = Inr out"
    using nn so[unfolded img_size_def]
    by (simp add: fit_to_canvas_def n[unfolded img_size_def] o[unfolded img_size_def]
        resize_def image_new_def paste_def paste_offset_def img_size_def)
      (auto simp: out_def fun_eq_iff)
  have 3: "\<forall>x y. 0 \<le> x \<and> x < width img \<and> 0 \<le> y \<and> y < height img \<longrightarrow> pix out x y = pix img x y"
    by (simp add: out_def)
  from n o 1 so 2 3 show ?thesis by blast
qed

theorem fit_to_canvas_same_size_witness:
  "image_dim 50 \<and> can_allocate example_world (50, 50)
   \<and> new_size (50, 50) (50, 50) = Inr (50, 50)
   \<and> (\<exists>out. fit_to_canvas example_world (example_image 50 50) (50, 50) True (0, 0, 0, 0)
               = Inr out
            \<and> img_size out = (50, 50) \<and> pix out 3 4 = (3, 4, 0, 255)
            \<and> pix out 49 0 = pix (example_image 50 50) 49 0)"
proof -
  have d: "image_dim (width (example_image 50 50))" "image_dim (height (example_image 50 50))"
    by (simp_all add: example_image_def image_dim_def)
  have s: "img_size (example_image 50 50) = (50, 50)" by (simp add: example_image_def img_size_def)
  have a: "can_allocate example_world (img_size (example_image 50 50))"
    by (simp add: s example_world_def)
  from fit_to_canvas_same_size[OF d a, of "(0, 0, 0, 0)"] a
  show ?thesis
    unfolding s by (auto simp: example_image_def image_dim_def)
qed

section \<open>A canvas size that is not positive\<close>

text \<open>
  The size computation never raises for a proper image, whatever the sign of the canvas, and
  with a negative width or height of the canvas it gives one pixel each way.
\<close>

lemma round_half_even_nonpos: "x \<le> 0 \<Longrightarrow> round_half_even x \<le> 0"
proof -
  assume "x \<le> 0"
  moreover have "\<bar>of_int (round_half_even x) - x\<bar> \<le> 1 / 2" by (rule round_half_even_error)
  ultimately have "(of_int (round_half_even x) :: rat) < 1" by linarith
  then have "(of_int (round_half_even x) :: rat) < of_int 1" by simp
  then have "round_half_even x < 1" by (simp only: of_int_less_iff)
  then show ?thesis by simp
qed

lemma fl_nonpos:
  assumes "x \<le> 0" "fl x = Fin y"
  shows "y \<le> 0"
proof (cases "x = 0")
  case True
  with assms(2) show ?thesis by simp
next
  case False
  define q where "q = max (ilog2 x - 52) (- 1074)"
  have "x / 2 powi q \<le> 0" using assms(1) by (simp add: divide_nonpos_pos)
  then have "round_half_even (x / 2 powi q) \<le> 0" by (rule round_half_even_nonpos)
  then have "(of_int (round_half_even (x / 2 powi q)) :: rat) \<le> 0" by simp
  then have "(of_int (round_half_even (x / 2 powi q)) :: rat) * 2 powi q \<le> 0"
    by (simp add: mult_nonpos_nonneg)
  moreover have "y = of_int (round_half_even (x / 2 powi q)) * 2 powi q"
    using assms(2) False by (simp add: fl_def Let_def q_def split: if_splits)
  ultimately show ?thesis by simp
qed

lemma int_truediv_bounded:
  assumes "1 \<le> n" "n < 2 ^ 31" "\<bar>c\<bar> < 2 ^ 31"
  shows "\<exists>a. int_truediv c n = Inr (Fin a) \<and> \<bar>a\<bar> \<le> 2 ^ 33 \<and> (c < 0 \<longrightarrow> a < 0)"
proof -
  define x :: rat where "x = of_int c / of_int n"
  have small: "(2::rat) ^ 31 < 2 ^ 64" by simp
  have big: "(2::rat) ^ 64 < 2 powi 1023"
  proof -
    have "(2::rat) powi 64 < 2 powi 1023" by (simp only: p2_less_iff)
    then show ?thesis by simp
  qed
  have rc: "\<bar>of_int c :: rat\<bar> < 2 ^ 31"
  proof -
    have "(of_int \<bar>c\<bar> :: rat) < of_int (2 ^ 31)" using assms(3) by (simp only: of_int_less_iff)
    then show ?thesis by simp
  qed
  have rn: "(1::rat) \<le> of_int n" "(of_int n :: rat) < 2 ^ 31"
    using assms(1,2) by (simp_all add: of_int_less_numeral_power_cancel_iff)
  have "\<bar>x\<bar> = \<bar>of_int c\<bar> / of_int n" using rn by (simp add: x_def)
  also have "\<dots> \<le> \<bar>of_int c\<bar>"
  proof -
    have "1 * \<bar>of_int c :: rat\<bar> \<le> of_int n * \<bar>of_int c\<bar>"
      using rn by (intro mult_right_mono) simp_all
    then show ?thesis using rn by (simp add: field_simps)
  qed
  finally have x: "\<bar>x\<bar> < 2 ^ 31" using rc by linarith
  then have lt: "\<bar>x\<bar> < 2 powi 1023" using big small by linarith
  from fl_bounded[OF lt] obtain a where a: "fl x = Fin a" "\<bar>a\<bar> \<le> 2 * \<bar>x\<bar> + 1" by blast
  have 1: "\<bar>a\<bar> \<le> 2 ^ 33" using a(2) x by simp
  have 2: "a < 0" if "c < 0"
  proof -
    have "c \<le> - 1" using that by simp
    then have "(of_int c :: rat) \<le> of_int (- 1)" by (simp only: of_int_le_iff)
    then have c1: "(of_int c :: rat) \<le> - 1" by simp
    have "x \<le> - 1 / of_int n"
      unfolding x_def using c1 rn by (simp add: field_simps)
    moreover have "- 1 / (of_int n :: rat) \<le> - 1 / 2 ^ 31" using rn by (simp add: field_simps)
    ultimately have xn: "x \<le> - (1 / 2 ^ 31)" by simp
    have "(2::rat) powi (- 1022) \<le> 2 powi (- 31)" by (simp only: p2_le_iff)
    also have "(2::rat) powi (- 31) = 1 / 2 ^ 31" by (simp add: power_int_minus_divide)
    finally have lo: "2 powi (- 1022) \<le> \<bar>x\<bar>" using xn by linarith
    from fl_relative_error[OF lo lt] a(1) have e: "\<bar>a - x\<bar> \<le> \<bar>x\<bar> / 2 ^ 53" by simp
    have "(0::rat) < 1 / 2 ^ 31" by simp
    with xn have "x < 0" by linarith
    then have "\<bar>x\<bar> / 2 ^ 53 < \<bar>x\<bar>" by (simp add: field_simps)
    with e \<open>x < 0\<close> show ?thesis by linarith
  qed
  have "n \<noteq> 0" using assms(1) by simp
  then show ?thesis using a(1) 1 2 by (simp add: int_truediv_def x_def)
qed

lemma scaled_dim_bounded:
  assumes "1 \<le> n" "n < 2 ^ 31" "\<bar>s\<bar> \<le> 2 ^ 33"
  shows "\<exists>i. ebind (int_mul_float n (Fin s)) py_int = Inr i \<and> (s < 0 \<longrightarrow> i \<le> 0)"
proof -
  have big: "(2::rat) ^ 64 < 2 powi 1023"
  proof -
    have "(2::rat) powi 64 < 2 powi 1023" by (simp only: p2_less_iff)
    then show ?thesis by simp
  qed
  have rn: "(0::rat) \<le> of_int n" "(of_int n :: rat) < 2 ^ 31"
    using assms(1,2) by (simp_all add: of_int_less_numeral_power_cancel_iff)
  have "\<bar>n\<bar> < 2 ^ 53" using assms(1,2) by simp
  then have c: "float_of_int n = Inr (Fin (of_int n))" by (rule float_of_int_exact)
  have "\<bar>of_int n * s\<bar> = of_int n * \<bar>s\<bar>" using rn by (simp add: abs_mult)
  also have "\<dots> \<le> of_int n * 2 ^ 33" using assms(3) rn by (intro mult_left_mono) simp_all
  also have "\<dots> \<le> 2 ^ 31 * 2 ^ 33" using rn by (intro mult_right_mono) simp_all
  also have "\<dots> = (2::rat) ^ 64" by simp
  finally have "\<bar>of_int n * s\<bar> < 2 powi 1023" using big by linarith
  from fl_bounded[OF this] obtain p where p: "fl (of_int n * s) = Fin p" by blast
  have e: "ebind (int_mul_float n (Fin s)) py_int = Inr (if 0 \<le> p then \<lfloor>p\<rfloor> else \<lceil>p\<rceil>)"
    by (simp add: int_mul_float_def c p)
  have "(if 0 \<le> p then \<lfloor>p\<rfloor> else \<lceil>p\<rceil>) \<le> 0" if "s < 0"
  proof -
    have "of_int n * s \<le> 0" using rn that by (simp add: mult_nonneg_nonpos)
    from fl_nonpos[OF this p] have p0: "p \<le> 0" .
    show ?thesis
    proof (cases "0 \<le> p")
      case True
      with p0 have "p = 0" by simp
      then show ?thesis by simp
    next
      case False
      have "p \<le> of_int 0" using p0 by simp
      then have "\<lceil>p\<rceil> \<le> 0" by (simp only: ceiling_le_iff)
      with False show ?thesis by simp
    qed
  qed
  with e show ?thesis by blast
qed

lemma new_size_total:
  assumes "image_dim w" "image_dim h" "\<bar>cw\<bar> < 2 ^ 31" "\<bar>ch\<bar> < 2 ^ 31"
  shows "\<exists>nw nh. new_size (w, h) (cw, ch) = Inr (nw, nh) \<and> 1 \<le> nw \<and> 1 \<le> nh
           \<and> (cw < 0 \<or> ch < 0 \<longrightarrow> nw = 1 \<and> nh = 1)"
proof -
  have d: "1 \<le> w" "w < 2 ^ 31" "1 \<le> h" "h < 2 ^ 31" using assms by (simp_all add: image_dim_def)
  from int_truediv_bounded[OF d(1,2) assms(3)] obtain a where
    a: "int_truediv cw w = Inr (Fin a)" "\<bar>a\<bar> \<le> 2 ^ 33" "cw < 0 \<longrightarrow> a < 0" by blast
  from int_truediv_bounded[OF d(3,4) assms(4)] obtain b where
    b: "int_truediv ch h = Inr (Fin b)" "\<bar>b\<bar> \<le> 2 ^ 33" "ch < 0 \<longrightarrow> b < 0" by blast
  define s where "s = min a b"
  have s: "\<bar>s\<bar> \<le> 2 ^ 33" using a(2) b(2) by (simp add: s_def min_def)
  have sn: "s < 0" if "cw < 0 \<or> ch < 0" using that a(3) b(3) by (auto simp: s_def min_def)
  from scaled_dim_bounded[OF d(1,2) s] obtain iw where
    iw: "ebind (int_mul_float w (Fin s)) py_int = Inr iw" "s < 0 \<longrightarrow> iw \<le> 0" by blast
  from scaled_dim_bounded[OF d(3,4) s] obtain ih where
    ih: "ebind (int_mul_float h (Fin s)) py_int = Inr ih" "s < 0 \<longrightarrow> ih \<le> 0" by blast
  have "new_size (w, h) (cw, ch) = Inr (max 1 iw, max 1 ih)"
    by (simp add: new_size_def a(1) b(1) float_min_Fin iw(1) ih(1) flip: s_def)
  moreover have "max 1 iw = 1 \<and> max 1 ih = 1" if "cw < 0 \<or> ch < 0"
    using sn[OF that] iw(2) ih(2) by simp
  ultimately show ?thesis by auto
qed

lemma fit_to_canvas_negative_canvas:
  assumes "image_dim (width img)" "image_dim (height img)" "\<bar>cw\<bar> < 2 ^ 31" "\<bar>ch\<bar> < 2 ^ 31"
    and "cw < 0 \<or> ch < 0"
  shows "new_size (img_size img) (cw, ch) = Inr (1, 1)"
    and "fit_to_canvas w img (cw, ch) True bgcolor
           = (case resize w img (1, 1) of
                Inl e \<Rightarrow> Inl e
              | Inr resized \<Rightarrow> Inl (ValueError ''Width and height must be >= 0''))"
proof -
  from new_size_total[OF assms(1-4)] assms(5)
  show n: "new_size (img_size img) (cw, ch) = Inr (1, 1)"
    by (auto simp: img_size_def)
  show "fit_to_canvas w img (cw, ch) True bgcolor
           = (case resize w img (1, 1) of
                Inl e \<Rightarrow> Inl e
              | Inr resized \<Rightarrow> Inl (ValueError ''Width and height must be >= 0''))"
    using assms(5) by (simp add: fit_to_canvas_def n image_new_def ebind_def split: sum.splits)
qed

lemma fit_to_canvas_nonnegative_canvas:
  assumes "image_dim (width img)" "image_dim (height img)" "cw < 2 ^ 31" "ch < 2 ^ 31"
    and "0 \<le> cw" "0 \<le> ch"
  shows "\<exists>nw nh. new_size (img_size img) (cw, ch) = Inr (nw, nh) \<and> 1 \<le> nw \<and> 1 \<le> nh
           \<and> (cw = 0 \<or> ch = 0 \<longrightarrow> nw = 1 \<and> nh = 1)
           \<and> (can_allocate w (nw, nh) \<and> can_allocate w (cw, ch) \<longrightarrow>
                (\<exists>out. fit_to_canvas w img (cw, ch) True bgcolor = Inr out
                   \<and> img_size out = (cw, ch)))"
proof (cases "1 \<le> cw \<and> 1 \<le> ch")
  case True
  then have c: "image_dim cw" "image_dim ch" using assms(3,4) by (simp_all add: image_dim_def)
  from new_size_within_canvas[OF assms(1,2) c] obtain nw nh where
    n: "new_size (img_size img) (cw, ch) = Inr (nw, nh)" "1 \<le> nw" "nw \<le> cw" "1 \<le> nh" "nh \<le> ch"
    by (auto simp: img_size_def)
  have b: "nw < 2 ^ 31" "nh < 2 ^ 31" using n(3,5) assms(3,4) by simp_all
  have "(can_allocate w (nw, nh) \<and> can_allocate w (cw, ch)) \<longrightarrow>
        (\<exists>out. fit_to_canvas w img (cw, ch) True bgcolor = Inr out \<and> img_size out = (cw, ch))"
  proof
    assume a: "can_allocate w (nw, nh) \<and> can_allocate w (cw, ch)"
    from resize_succeeds[of "(nw, nh)" w img] n b a obtain resized where
      r: "resize w img (nw, nh) = Inr resized" by auto
    from image_new_succeeds[of "(cw, ch)" w bgcolor] assms(3-6) a obtain canvas where
      "image_new w (cw, ch) bgcolor = Inr canvas" by auto
    then obtain out where o: "fit_to_canvas w img (cw, ch) True bgcolor = Inr out"
      by (simp add: fit_to_canvas_def n r)
    from fit_to_canvas_size[OF o] o
    show "\<exists>out. fit_to_canvas w img (cw, ch) True bgcolor = Inr out \<and> img_size out = (cw, ch)"
      by blast
  qed
  moreover have "\<not> (cw = 0 \<or> ch = 0)" using True by auto
  ultimately show ?thesis using n by blast
next
  case False
  then have z: "cw = 0 \<or> ch = 0" using assms(5,6) by auto
  have d: "1 \<le> width img" "1 \<le> height img" using assms(1,2) by (simp_all add: image_dim_def)
  have q: "int_truediv 0 n = Inr (Fin 0)" if "1 \<le> n" for n
    using that by (simp add: int_truediv_def)
  have ab: "\<bar>cw\<bar> < 2 ^ 31" "\<bar>ch\<bar> < 2 ^ 31" using assms(3-6) by simp_all
  from new_size_total[OF assms(1,2) ab] obtain nw nh where
    n: "new_size (img_size img) (cw, ch) = Inr (nw, nh)" "1 \<le> nw" "1 \<le> nh"
    by (auto simp: img_size_def)
  have c: "image_dim cw \<or> cw = 0" "image_dim ch \<or> ch = 0"
    using assms(3-6) by (auto simp: image_dim_def)
  have one: "nw = 1 \<and> nh = 1"
  proof -
    from int_truediv_bounded[OF d(1) _ ab(1)] assms(1) obtain a where
      a: "int_truediv cw (width img) = Inr (Fin a)" by (auto simp: image_dim_def)
    from int_truediv_bounded[OF d(2) _ ab(2)] assms(2) obtain b where
      b: "int_truediv ch (height img) = Inr (Fin b)" by (auto simp: image_dim_def)
    have a0: "0 \<le> a"
    proof -
      have "0 \<le> (of_int cw :: rat) / of_int (width img)" using assms(5) d(1) by simp
      moreover have "fl (of_int cw / of_int (width img)) = Fin a"
        using a d(1) by (auto simp: int_truediv_def split: if_splits pyfloat.splits)
      ultimately show ?thesis by (rule fl_nonneg)
    qed
    have b0: "0 \<le> b"
    proof -
      have "0 \<le> (of_int ch :: rat) / of_int (height img)" using assms(6) d(2) by simp
      moreover have "fl (of_int ch / of_int (height img)) = Fin b"
        using b d(2) by (auto simp: int_truediv_def split: if_splits pyfloat.splits)
      ultimately show ?thesis by (rule fl_nonneg)
    qed
    have "a = 0 \<or> b = 0" using z a b q[OF d(1)] q[OF d(2)] by auto
    with a0 b0 have m: "min a b = 0" by (auto simp: min_def)
    have f: "float_of_int (width img) = Inr (Fin (of_int (width img)))"
        "float_of_int (height img) = Inr (Fin (of_int (height img)))"
      using assms(1,2) by (simp_all add: float_of_int_exact image_dim_def)
    have "new_size (img_size img) (cw, ch) = Inr (1, 1)"
      by (simp add: new_size_def img_size_def a b float_min_Fin m int_mul_float_def f)
    with n(1) show ?thesis by simp
  qed
  have "\<exists>out. fit_to_canvas w img (cw, ch) True bgcolor = Inr out \<and> img_size out = (cw, ch)"
    if a: "can_allocate w (nw, nh) \<and> can_allocate w (cw, ch)"
  proof -
    from resize_succeeds[of "(nw, nh)" w img] one a obtain resized where
      r: "resize w img (nw, nh) = Inr resized" by auto
    from image_new_succeeds[of "(cw, ch)" w bgcolor] assms(3-6) a obtain canvas where
      "image_new w (cw, ch) bgcolor = Inr canvas" by auto
    then obtain out where o: "fit_to_canvas w img (cw, ch) True bgcolor = Inr out"
      by (simp add: fit_to_canvas_def n r)
    from fit_to_canvas_size[OF o] o show ?thesis by blast
  qed
  with n one show ?thesis by auto
qed

lemma resize_one_pixel:
  "resize w img (1, 1)
     = (if img_size img = (1, 1) \<or> can_allocate w (1, 1) then
          Inr (if img_size img = (1, 1) then img
               else \<lparr>width = 1, height = 1, pix = lanczos w img (1, 1)\<rparr>)
        else Inl MemoryError)"
  by (simp add: resize_def c_int_def)

text \<open>
  C5 as claimed fails: with the canvas size \<open>(0, 0)\<close> nothing is raised, and
  \<open>load_frames\<close> returns a frame of that size.
\<close>

theorem load_frames_zero_canvas_counterexample:
  "map_sum id (map img_size) (fst (load_frames example_world [''frames/img1.png''] (Some (0, 0))))
     = Inr [(0, 0)]"
proof -
  have d: "decode example_world ''frames/img1.png'' = Some (example_image 50 50)"
    by (simp add: example_world_def)
  have i: "image_dim (width (example_image 50 50))" "image_dim (height (example_image 50 50))"
    by (simp_all add: example_image_def image_dim_def)
  from fit_to_canvas_nonnegative_canvas[OF i, of 0 0 example_world "(0, 0, 0, 0)"]
  obtain out where
    "fit_to_canvas example_world (example_image 50 50) (0, 0) True (0, 0, 0, 0) = Inr out"
    "img_size out = (0, 0)" by (auto simp: example_world_def)
  then show ?thesis by (simp add: load_frames_def d)
qed

text \<open>
  C5, amended. The program does not check the canvas size and has no error of its own for
  it. Take an image whose dimensions are at least 1 and below \<open>2 ^ 31\<close>, and a canvas
  whose width and height are between \<open>- (2 ^ 31)\<close> and \<open>2 ^ 31\<close>, both excluded.
  With a negative width or height the image is resized to 1 by 1 and \<open>Image.new\<close>
  then fails with Pillow's \<open>ValueError\<close> (or the resize fails with \<open>MemoryError\<close>,
  when not even an image of one pixel can be allocated); \<open>load_frames\<close> raises this
  error at its first image. With a width and a height that are zero or more, a zero
  included, the size is not refused: when Pillow can allocate the resized image and the
  canvas, the frame has the size of the canvas; a zero makes the resized image 1 by 1.
  With no paths, \<open>load_frames\<close> returns no frames whatever the size.
\<close>

theorem canvas_size_not_validated:
  assumes "decode w p = Some img" "image_dim (width img)" "image_dim (height img)"
    and "\<bar>cw\<bar> < 2 ^ 31" "\<bar>ch\<bar> < 2 ^ 31"
  shows "(cw < 0 \<or> ch < 0 \<longrightarrow>
            new_size (img_size img) (cw, ch) = Inr (1, 1)
          \<and> fit_to_canvas w img (cw, ch) True (0, 0, 0, 0)
              = Inl (if img_size img = (1, 1) \<or> can_allocate w (1, 1)
                     then ValueError ''Width and height must be >= 0'' else MemoryError)
          \<and> load_frames w (p # ps) (Some (cw, ch))
              = (Inl (if img_size img = (1, 1) \<or> can_allocate w (1, 1)
                      then ValueError ''Width and height must be >= 0'' else MemoryError),
                 [Open_image p]))
         \<and> (0 \<le> cw \<and> 0 \<le> ch \<longrightarrow>
            (\<exists>nw nh. new_size (img_size img) (cw, ch) = Inr (nw, nh) \<and> 1 \<le> nw \<and> 1 \<le> nh
               \<and> (cw = 0 \<or> ch = 0 \<longrightarrow> nw = 1 \<and> nh = 1)
               \<and> (can_allocate w (nw, nh) \<and> can_allocate w (cw, ch) \<longrightarrow>
                    (\<exists>out. fit_to_canvas w img (cw, ch) True (0, 0, 0, 0) = Inr out
                       \<and> img_size out = (cw, ch)))))
         \<and> load_frames w [] (Some (cw, ch)) = (Inr [], [])"
proof -
  have 1: "new_size (img_size img) (cw, ch) = Inr (1, 1)
          \<and> fit_to_canvas w img (cw, ch) True (0, 0, 0, 0)
              = Inl (if img_size img = (1, 1) \<or> can_allocate w (1, 1)
                     then ValueError ''Width and height must be >= 0'' else MemoryError)
          \<and> load_frames w (p # ps) (Some (cw, ch))
              = (Inl (if img_size img = (1, 1) \<or> can_allocate w (1, 1)
                      then ValueError ''Width and height must be >= 0'' else MemoryError),
                 [Open_image p])"
    if neg: "cw < 0 \<or> ch < 0"
  proof -
    note F = fit_to_canvas_negative_canvas(1)[OF assms(2-5) neg]
      fit_to_canvas_negative_canvas(2)[OF assms(2-5) neg, of w "(0, 0, 0, 0)"]
    have f: "fit_to_canvas w img (cw, ch) True (0, 0, 0, 0)
              = Inl (if img_size img = (1, 1) \<or> can_allocate w (1, 1)
                     then ValueError ''Width and height must be >= 0'' else MemoryError)"
      by (simp add: F(2) resize_one_pixel)
    have "load_frames w (p # ps) (Some (cw, ch))
              = (Inl (if img_size img = (1, 1) \<or> can_allocate w (1, 1)
                      then ValueError ''Width and height must be >= 0'' else MemoryError),
                 [Open_image p])"
      by (simp add: load_frames_def assms(1) f)
    with F(1) f show ?thesis by blast
  qed
  have 2: "\<exists>nw nh. new_size (img_size img) (cw, ch) = Inr (nw, nh) \<and> 1 \<le> nw \<and> 1 \<le> nh
               \<and> (cw = 0 \<or> ch = 0 \<longrightarrow> nw = 1 \<and> nh = 1)
               \<and> (can_allocate w (nw, nh) \<and> can_allocate w (cw, ch) \<longrightarrow>
                    (\<exists>out. fit_to_canvas w img (cw, ch) True (0, 0, 0, 0) = Inr out
                       \<and> img_size out = (cw, ch)))"
    if "0 \<le> cw \<and> 0 \<le> ch"
  proof -
    have "cw < 2 ^ 31" "ch < 2 ^ 31" "0 \<le> cw" "0 \<le> ch" using assms(4,5) that by simp_all
    from fit_to_canvas_nonnegative_canvas[OF assms(2,3) this, of w "(0, 0, 0, 0)"]
    show ?thesis .
  qed
  have 3: "load_frames w [] (Some (cw, ch)) = (Inr [], [])" by (simp add: load_frames_def)
  from 1 2 3 show ?thesis by blast
qed

theorem canvas_size_not_validated_witness:
  "decode example_world ''frames/img2.png'' = Some (example_image 80 40)
   \<and> can_allocate example_world (1, 1) \<and> can_allocate example_world (0, 7)
   \<and> new_size (80, 40) (- 4, 4) = Inr (1, 1)
   \<and> load_frames example_world [''frames/img2.png'', ''frames/img10.png''] (Some (- 4, 4))
       = (Inl (ValueError ''Width and height must be >= 0''), [Open_image ''frames/img2.png''])
   \<and> new_size (80, 40) (0, 7) = Inr (1, 1)
   \<and> (\<exists>out. fit_to_canvas example_world (example_image 80 40) (0, 7) True (0, 0, 0, 0)
              = Inr out \<and> img_size out = (0, 7))"
proof -
  have d: "decode example_world ''frames/img2.png'' = Some (example_image 80 40)"
    by (simp add: example_world_def)
  have i: "image_dim (width (example_image 80 40))" "image_dim (height (example_image 80 40))"
    by (simp_all add: example_image_def image_dim_def)
  have s: "img_size (example_image 80 40) = (80, 40)"
    by (simp add: example_image_def img_size_def)
  have a: "can_allocate example_world (1, 1)" "can_allocate example_world (0, 7)"
    by (simp_all add: example_world_def)
  from canvas_size_not_validated[OF d i, of "- 4" 4 "[''frames/img10.png'']"]
    canvas_size_not_validated[OF d i, of 0 7 "[]"] d a
  show ?thesis unfolding s by auto
qed

section \<open>The letterbox in exact and in floating-point arithmetic\<close>

lemma new_size_100_57: "new_size (100, 100) (57, 57) = Inr (56, 56)"
proof -
  define a :: rat where "a = 5134103575202365 / 9007199254740992"
  define p :: rat where "p = 8022036836253695 / 140737488355328"
  have 1: "fl (of_int 57 / of_int 100) = Fin a"
    using fl_eqI[of "- 1" "57 / 100" 5134103575202365] by (simp add: a_def)
  have 2: "fl (of_int 100 * min a a) = Fin p"
    using fl_eqI[of 5 "100 * a" 8022036836253695] by (simp add: a_def p_def)
  have "new_size (100, 100) (57, 57) = Inr (max 1 \<lfloor>p\<rfloor>, max 1 \<lfloor>p\<rfloor>)"
    by (rule new_size_eval[OF 1 1 2 2]) (simp_all add: p_def)
  moreover have "\<lfloor>p\<rfloor> = 56" by (simp add: p_def floor_eq_iff)
  ultimately show ?thesis by simp
qed

lemma spec_new_size_100_57: "spec_new_size (100, 100) (57, 57) = (57, 57)"
  by (simp add: spec_new_size_def exact_scale_def)

lemma new_size_200_100: "new_size (200, 100) (100, 100) = Inr (100, 50)"
proof -
  have 1: "fl (of_int 100 / of_int 200) = Fin (1 / 2)"
    using fl_exact[of "1 / 2" 1 "- 1"] by simp
  have 2: "fl (of_int 100 / of_int 100) = Fin 1" by simp
  have 3: "fl (of_int 200 * min (1 / 2) 1) = Fin 100"
    using fl_of_int_exact[of 100] by simp
  have 4: "fl (of_int 100 * min (1 / 2) 1) = Fin 50"
    using fl_of_int_exact[of 50] by simp
  have "new_size (200, 100) (100, 100) = Inr (max 1 \<lfloor>100 :: rat\<rfloor>, max 1 \<lfloor>50 :: rat\<rfloor>)"
    by (rule new_size_eval[OF 1 2 3 4]) simp_all
  then show ?thesis by simp
qed

lemma new_size_1000_10: "new_size (1000, 10) (10, 10) = Inr (10, 1)"
proof -
  define a :: rat where "a = 5764607523034235 / 576460752303423488"
  define p :: rat where "p = 3602879701896397 / 36028797018963968"
  have 1: "fl (of_int 10 / of_int 1000) = Fin a"
    using fl_eqI[of "- 7" "1 / 100" 5764607523034235] by (simp add: a_def)
  have 2: "fl (of_int 10 / of_int 10) = Fin 1" by simp
  have m: "min a 1 = a" by (simp add: a_def)
  have 3: "fl (of_int 1000 * min a 1) = Fin 10"
    using fl_eqI[of 3 "1000 * a" 5629499534213120] by (simp add: a_def m)
  have 4: "fl (of_int 10 * min a 1) = Fin p"
    using fl_eqI[of "- 4" "10 * a" 7205759403792794] by (simp add: a_def p_def m)
  have "new_size (1000, 10) (10, 10) = Inr (max 1 \<lfloor>10 :: rat\<rfloor>, max 1 \<lfloor>p\<rfloor>)"
    by (rule new_size_eval[OF 1 2 3 4]) (simp_all add: p_def)
  moreover have "\<lfloor>p\<rfloor> = 0" by (simp add: p_def floor_eq_iff)
  ultimately show ?thesis by simp
qed

text \<open>
  C2 as claimed fails when the formula is read in exact arithmetic: a 100 by 100 image on a
  57 by 57 canvas is resized to 56 by 56, since \<open>100 * (57 / 100)\<close> is
  \<open>56.99999999999999\<close> in double precision, while the exact formula gives 57 by 57.
\<close>

theorem new_size_not_exact_counterexample:
  "new_size (100, 100) (57, 57) = Inr (56, 56) \<and> spec_new_size (100, 100) (57, 57) = (57, 57)"
  by (simp add: new_size_100_57 spec_new_size_100_57)

lemma scaled_exact_quotient:
  assumes "1 \<le> w" "1 \<le> h"
  shows "of_int w * exact_scale (w, h) (cw, ch) = of_int (min (cw * h) (w * ch)) / of_int h"
    and "of_int h * exact_scale (w, h) (cw, ch) = of_int (min (cw * h) (w * ch)) / of_int w"
proof -
  have r: "(0::rat) < of_int w" "(0::rat) < of_int h" using assms by simp_all
  have iff: "(of_int cw :: rat) / of_int w \<le> of_int ch / of_int h \<longleftrightarrow> cw * h \<le> w * ch"
  proof -
    have "(of_int cw :: rat) / of_int w \<le> of_int ch / of_int h
            \<longleftrightarrow> (of_int cw :: rat) * of_int h \<le> of_int w * of_int ch"
      using r by (simp add: field_simps)
    also have "\<dots> \<longleftrightarrow> (of_int (cw * h) :: rat) \<le> of_int (w * ch)" by simp
    also have "\<dots> \<longleftrightarrow> cw * h \<le> w * ch" by (simp only: of_int_le_iff)
    finally show ?thesis .
  qed
  show "of_int w * exact_scale (w, h) (cw, ch) = of_int (min (cw * h) (w * ch)) / of_int h"
    using r by (simp add: exact_scale_def min_def iff field_simps)
  show "of_int h * exact_scale (w, h) (cw, ch) = of_int (min (cw * h) (w * ch)) / of_int w"
    using r by (simp add: exact_scale_def min_def iff field_simps)
qed

lemma floor_near_quotient:
  fixes N d :: int and p :: rat
  assumes "1 \<le> d" "0 \<le> N" "N < 2 ^ 51"
    and "\<bar>p - of_int N / of_int d\<bar> \<le> (of_int N / of_int d) / 2 ^ 51"
  shows "\<lfloor>of_int N / of_int d :: rat\<rfloor> - 1 \<le> \<lfloor>p\<rfloor>" "\<lfloor>p\<rfloor> \<le> \<lfloor>of_int N / of_int d :: rat\<rfloor>"
proof -
  define k where "k = N div d"
  define x :: rat where "x = of_int N / of_int d"
  have rd: "(0::rat) < of_int d" using assms(1) by simp
  have fx: "\<lfloor>x\<rfloor> = k" by (simp add: x_def k_def floor_divide_of_int_eq)
  have "N = k * d + N mod d" by (simp add: k_def)
  moreover have "0 \<le> N mod d" "N mod d \<le> d - 1" using assms(1) by (simp_all add: Euclidean_Rings.pos_mod_bound)
  ultimately have "k * d \<le> N" "N \<le> k * d + d - 1" by linarith+
  then have "(of_int (k * d) :: rat) \<le> of_int N" "(of_int N :: rat) \<le> of_int (k * d + d - 1)"
    by (simp_all only: of_int_le_iff)
  then have xb: "of_int k \<le> x" "x \<le> of_int k + 1 - 1 / of_int d"
    using rd by (simp_all add: x_def field_simps)
  have "(of_int N :: rat) < of_int (2 ^ 51)" using assms(3) by (simp only: of_int_less_iff)
  then have "(of_int N :: rat) / 2 ^ 51 < 1" by simp
  then have "(of_int N / 2 ^ 51) / of_int d < 1 / (of_int d :: rat)"
    using rd by (rule divide_strict_right_mono)
  moreover have "x / 2 ^ 51 = (of_int N / 2 ^ 51) / of_int d" by (simp add: x_def)
  ultimately have small: "x / 2 ^ 51 < 1 / of_int d" by (simp only:)
  have "1 / (of_int d :: rat) \<le> 1" using assms(1) by simp
  with small have small1: "x / 2 ^ 51 < 1" by linarith
  from assms(4) have p: "x - x / 2 ^ 51 \<le> p" "p \<le> x + x / 2 ^ 51" unfolding x_def by linarith+
  have "p < of_int k + 1" using p(2) xb(2) small by linarith
  then have "p < of_int (k + 1)" by simp
  then have "\<lfloor>p\<rfloor> < k + 1" by (simp only: floor_less_iff)
  then show "\<lfloor>p\<rfloor> \<le> \<lfloor>of_int N / of_int d :: rat\<rfloor>" using fx by (simp add: x_def)
  have "of_int k - 1 \<le> p" using p(1) xb(1) small1 by linarith
  then have "of_int (k - 1) \<le> p" by simp
  then have "k - 1 \<le> \<lfloor>p\<rfloor>" by (simp only: le_floor_iff)
  then show "\<lfloor>of_int N / of_int d :: rat\<rfloor> - 1 \<le> \<lfloor>p\<rfloor>" using fx by (simp add: x_def)
qed

lemma new_size_near_exact:
  assumes "small_dim w" "small_dim h" "small_dim cw" "small_dim ch"
  shows "\<exists>nw nh. new_size (w, h) (cw, ch) = Inr (nw, nh) \<and> 1 \<le> nw \<and> 1 \<le> nh
           \<and> fst (spec_new_size (w, h) (cw, ch)) - 1 \<le> nw
           \<and> nw \<le> fst (spec_new_size (w, h) (cw, ch))
           \<and> snd (spec_new_size (w, h) (cw, ch)) - 1 \<le> nh
           \<and> nh \<le> snd (spec_new_size (w, h) (cw, ch))"
proof -
  note d = assms[unfolded small_dim_def]
  have id: "image_dim w" "image_dim h" "image_dim cw" "image_dim ch"
    using d by (simp_all add: image_dim_def)
  define N where "N = min (cw * h) (w * ch)"
  have "0 \<le> cw * h" "0 \<le> w * ch" using d by simp_all
  then have N0: "0 \<le> N" by (simp add: N_def)
  have "cw * h < 2 ^ 25 * 2 ^ 25" using d by (intro mult_strict_mono) simp_all
  then have "N < 2 ^ 25 * 2 ^ 25" by (simp add: N_def min_def)
  then have N51: "N < 2 ^ 51" by simp
  note Q = scaled_exact_quotient[of w h cw ch, folded N_def]
  from new_size_approx[OF id] obtain pw ph where
    n: "new_size (w, h) (cw, ch) = Inr (max 1 \<lfloor>pw\<rfloor>, max 1 \<lfloor>ph\<rfloor>)"
    and pw: "\<bar>pw - of_int w * exact_scale (w, h) (cw, ch)\<bar>
               \<le> of_int w * exact_scale (w, h) (cw, ch) / 2 ^ 51"
    and ph: "\<bar>ph - of_int h * exact_scale (w, h) (cw, ch)\<bar>
               \<le> of_int h * exact_scale (w, h) (cw, ch) / 2 ^ 51"
    by blast
  have w1: "1 \<le> w" and h1: "1 \<le> h" using d by simp_all
  note Fw = floor_near_quotient[OF h1 N0 N51 pw[unfolded Q(1)[OF w1 h1]]]
  note Fh = floor_near_quotient[OF w1 N0 N51 ph[unfolded Q(2)[OF w1 h1]]]
  have "spec_new_size (w, h) (cw, ch)
          = (max 1 \<lfloor>of_int N / of_int h :: rat\<rfloor>, max 1 \<lfloor>of_int N / of_int w :: rat\<rfloor>)"
    by (simp add: spec_new_size_def Q(1)[OF w1 h1] Q(2)[OF w1 h1])
  with n Fw Fh show ?thesis by auto
qed

lemma floor_within_one:
  fixes p x :: rat
  assumes "0 \<le> x" "x < 2 ^ 31" "\<bar>p - x\<bar> \<le> x / 2 ^ 51"
  shows "\<lfloor>x\<rfloor> - 1 \<le> \<lfloor>p\<rfloor>" "\<lfloor>p\<rfloor> \<le> \<lfloor>x\<rfloor> + 1"
proof -
  have "x / 2 ^ 51 < 2 ^ 31 / 2 ^ 51" using assms(2) by (simp add: divide_strict_right_mono)
  also have "\<dots> < (1::rat)" by simp
  finally have e: "x / 2 ^ 51 < 1" .
  have fx: "of_int \<lfloor>x\<rfloor> \<le> x" "x < of_int \<lfloor>x\<rfloor> + 1" by linarith+
  have "of_int \<lfloor>x\<rfloor> - 1 \<le> p" using assms(3) e fx by linarith
  then have "of_int (\<lfloor>x\<rfloor> - 1) \<le> p" by simp
  then show "\<lfloor>x\<rfloor> - 1 \<le> \<lfloor>p\<rfloor>" by (simp only: le_floor_iff)
  have "p < of_int \<lfloor>x\<rfloor> + 2" using assms(3) e fx by linarith
  then have "p < of_int (\<lfloor>x\<rfloor> + 2)" by simp
  then have "\<lfloor>p\<rfloor> < \<lfloor>x\<rfloor> + 2" by (simp only: floor_less_iff)
  then show "\<lfloor>p\<rfloor> \<le> \<lfloor>x\<rfloor> + 1" by simp
qed

lemma new_size_within_one:
  assumes "image_dim w" "image_dim h" "image_dim cw" "image_dim ch"
  shows "\<exists>nw nh. new_size (w, h) (cw, ch) = Inr (nw, nh) \<and> 1 \<le> nw \<and> 1 \<le> nh
           \<and> \<bar>nw - fst (spec_new_size (w, h) (cw, ch))\<bar> \<le> 1
           \<and> \<bar>nh - snd (spec_new_size (w, h) (cw, ch))\<bar> \<le> 1"
proof -
  define S where "S = exact_scale (w, h) (cw, ch)"
  from new_size_approx[OF assms] obtain pw ph where
    n: "new_size (w, h) (cw, ch) = Inr (max 1 \<lfloor>pw\<rfloor>, max 1 \<lfloor>ph\<rfloor>)"
    and pw: "\<bar>pw - of_int w * S\<bar> \<le> of_int w * S / 2 ^ 51"
    and ph: "\<bar>ph - of_int h * S\<bar> \<le> of_int h * S / 2 ^ 51"
    unfolding S_def by blast
  note SB = exact_scale_bounds[OF assms, folded S_def]
  have r: "(0::rat) \<le> of_int w" "(0::rat) \<le> of_int h"
      "(of_int cw :: rat) < 2 ^ 31" "(of_int ch :: rat) < 2 ^ 31"
    using assms by (simp_all add: image_dim_def of_int_less_numeral_power_cancel_iff)
  have "(0::rat) < 1 / 2 ^ 31" by simp
  with SB(1) have Spos: "0 \<le> S" by linarith
  have xw: "0 \<le> of_int w * S" "of_int w * S < 2 ^ 31" using r Spos SB(3) by simp_all
  have xh: "0 \<le> of_int h * S" "of_int h * S < 2 ^ 31" using r Spos SB(4) by simp_all
  note Fw = floor_within_one[OF xw pw] and Fh = floor_within_one[OF xh ph]
  have "spec_new_size (w, h) (cw, ch) = (max 1 \<lfloor>of_int w * S\<rfloor>, max 1 \<lfloor>of_int h * S\<rfloor>)"
    by (simp add: spec_new_size_def S_def)
  with n Fw Fh show ?thesis by auto
qed

text \<open>
  C2, amended. For an image and a canvas whose dimensions are at least 1 and below
  \<open>2 ^ 31\<close>, the scale and the two products are computed in double precision, so that
  each resized dimension differs by at most one from the value
  \<open>max(1, floor(dimension * min(cw / w, ch / h)))\<close> of the formula in exact arithmetic,
  and is that value or one less when all dimensions are below \<open>2 ^ 25\<close>. When Pillow
  can allocate the resized image and the canvas, the image is resized to these dimensions
  and pasted on a new canvas at the offset \<open>((cw - new_w) div 2, (ch - new_h) div 2)\<close>.
  A 200 by 100 image on a 100 by 100 canvas is resized to 100 by 50 and pasted at the vertical
  offset 25, and a 1000 by 10 image on a 10 by 10 canvas gets the height 1.
\<close>

theorem fit_to_canvas_letterbox:
  assumes "image_dim (width img)" "image_dim (height img)" "image_dim cw" "image_dim ch"
  shows "(\<exists>nw nh.
             new_size (img_size img) (cw, ch) = Inr (nw, nh)
           \<and> \<bar>nw - fst (spec_new_size (img_size img) (cw, ch))\<bar> \<le> 1
           \<and> \<bar>nh - snd (spec_new_size (img_size img) (cw, ch))\<bar> \<le> 1
           \<and> (small_dim (width img) \<and> small_dim (height img) \<and> small_dim cw \<and> small_dim ch
                \<longrightarrow> nw \<le> fst (spec_new_size (img_size img) (cw, ch))
                  \<and> nh \<le> snd (spec_new_size (img_size img) (cw, ch)))
           \<and> (can_allocate w (nw, nh) \<and> can_allocate w (cw, ch) \<longrightarrow>
                (\<exists>resized canvas.
                    resize w img (nw, nh) = Inr resized \<and> img_size resized = (nw, nh)
                  \<and> image_new w (cw, ch) bgcolor = Inr canvas \<and> img_size canvas = (cw, ch)
                  \<and> fit_to_canvas w img (cw, ch) True bgcolor
                      = Inr (paste canvas resized ((cw - nw) div 2, (ch - nh) div 2)))))
         \<and> new_size (200, 100) (100, 100) = Inr (100, 50)
         \<and> paste_offset (100, 100) (100, 50) = (0, 25)
         \<and> new_size (1000, 10) (10, 10) = Inr (10, 1)"
proof -
  from new_size_within_one[OF assms] obtain nw nh where
    n: "new_size (img_size img) (cw, ch) = Inr (nw, nh)" "1 \<le> nw" "1 \<le> nh"
    and b: "\<bar>nw - fst (spec_new_size (img_size img) (cw, ch))\<bar> \<le> 1"
       "\<bar>nh - snd (spec_new_size (img_size img) (cw, ch))\<bar> \<le> 1"
    unfolding img_size_def by blast
  from new_size_within_canvas[OF assms] n(1) have le: "nw \<le> cw" "nh \<le> ch"
    by (auto simp: img_size_def)
  have c: "0 \<le> cw" "0 \<le> ch" "cw < 2 ^ 31" "ch < 2 ^ 31"
    using assms(3,4) by (simp_all add: image_dim_def)
  have s: "nw \<le> fst (spec_new_size (img_size img) (cw, ch))
         \<and> nh \<le> snd (spec_new_size (img_size img) (cw, ch))"
    if "small_dim (width img) \<and> small_dim (height img) \<and> small_dim cw \<and> small_dim ch"
  proof -
    from that new_size_near_exact[of "width img" "height img" cw ch] obtain nw' nh' where
      "new_size (img_size img) (cw, ch) = Inr (nw', nh')"
      "nw' \<le> fst (spec_new_size (img_size img) (cw, ch))"
      "nh' \<le> snd (spec_new_size (img_size img) (cw, ch))"
      unfolding img_size_def by blast
    with n(1) show ?thesis by simp
  qed
  have f: "\<exists>resized canvas.
                    resize w img (nw, nh) = Inr resized \<and> img_size resized = (nw, nh)
                  \<and> image_new w (cw, ch) bgcolor = Inr canvas \<and> img_size canvas = (cw, ch)
                  \<and> fit_to_canvas w img (cw, ch) True bgcolor
                      = Inr (paste canvas resized ((cw - nw) div 2, (ch - nh) div 2))"
    if a: "can_allocate w (nw, nh) \<and> can_allocate w (cw, ch)"
  proof -
    from resize_succeeds[of "(nw, nh)" w img] n le c a obtain resized where
      r: "resize w img (nw, nh) = Inr resized" by auto
    have rs: "img_size resized = (nw, nh)" using r by (rule resize_size)
    from image_new_succeeds[of "(cw, ch)" w bgcolor] c a obtain canvas where
      v: "image_new w (cw, ch) bgcolor = Inr canvas" by auto
    have vs: "img_size canvas = (cw, ch)" using v by (rule image_new_size)
    have "fit_to_canvas w img (cw, ch) True bgcolor
             = Inr (paste canvas resized ((cw - nw) div 2, (ch - nh) div 2))"
      by (simp add: fit_to_canvas_def n r v paste_offset_def)
    with r rs v vs show ?thesis by blast
  qed
  have "paste_offset (100, 100) (100, 50) = (0, 25)" by (simp add: paste_offset_def)
  with n(1) b s f new_size_200_100 new_size_1000_10 show ?thesis by blast
qed

theorem fit_to_canvas_letterbox_witness:
  "image_dim 100 \<and> image_dim 57 \<and> small_dim 100 \<and> small_dim 57
   \<and> can_allocate example_world (56, 56) \<and> can_allocate example_world (57, 57)
   \<and> new_size (100, 100) (57, 57) = Inr (56, 56)
   \<and> spec_new_size (100, 100) (57, 57) = (57, 57)
   \<and> (\<exists>resized canvas.
         fit_to_canvas example_world (example_image 100 100) (57, 57) True (0, 0, 0, 0)
           = Inr (paste canvas resized (0, 0))
         \<and> img_size resized = (56, 56) \<and> img_size canvas = (57, 57))"
proof -
  have s: "image_dim (width (example_image 100 100))" "image_dim (height (example_image 100 100))"
      "image_dim 57"
    by (simp_all add: example_image_def image_dim_def)
  have i: "img_size (example_image 100 100) = (100, 100)"
    by (simp add: example_image_def img_size_def)
  have a: "can_allocate example_world (56, 56)" "can_allocate example_world (57, 57)"
    by (simp_all add: example_world_def)
  from fit_to_canvas_letterbox[OF s s(3), of example_world "(0, 0, 0, 0)"]
  obtain nw nh where
    n: "new_size (100, 100) (57, 57) = Inr (nw, nh)"
    and f: "can_allocate example_world (nw, nh) \<and> can_allocate example_world (57, 57) \<longrightarrow>
         (\<exists>resized canvas.
              img_size resized = (nw, nh) \<and> img_size canvas = (57, 57)
            \<and> fit_to_canvas example_world (example_image 100 100) (57, 57) True (0, 0, 0, 0)
                = Inr (paste canvas resized ((57 - nw) div 2, (57 - nh) div 2)))"
    unfolding i by blast
  from n have e: "nw = 56" "nh = 56" by (simp_all add: new_size_100_57)
  from f a obtain resized canvas where
    "img_size resized = (56, 56)" "img_size canvas = (57, 57)"
    "fit_to_canvas example_world (example_image 100 100) (57, 57) True (0, 0, 0, 0)
                = Inr (paste canvas resized (0, 0))"
    unfolding e by auto
  then show ?thesis
    using new_size_100_57 spec_new_size_100_57 a
    by (auto simp: small_dim_def image_dim_def)
qed

section \<open>The frame duration\<close>

lemma fl_not_NaN: "fl x \<noteq> NaN"
  by (simp add: fl_def Let_def)

lemma fl_pos_not_NegInf: "0 \<le> x \<Longrightarrow> fl x \<noteq> NegInf"
proof
  assume x: "0 \<le> x" and n: "fl x = NegInf"
  then have nz: "x \<noteq> 0" by auto
  define q where "q = max (ilog2 x - 52) (- 1074)"
  have "0 \<le> x / 2 powi q" using x by simp
  then have "0 \<le> round_half_even (x / 2 powi q)" by (rule round_half_even_nonneg)
  then have "(0::rat) \<le> of_int (round_half_even (x / 2 powi q)) * 2 powi q" by simp
  moreover have "(0::rat) < 2 powi 1024" by (rule p2_pos)
  ultimately have "\<not> (of_int (round_half_even (x / 2 powi q)) :: rat) * 2 powi q \<le> - (2 powi 1024)"
    by linarith
  with n nz show False by (simp add: fl_def Let_def q_def split: if_splits)
qed

lemma int_duration:
  assumes "0 < n"
  shows "ebind (int_truediv 1000 n) py_int = Inr (1000 div n)"
proof -
  define x :: rat where "x = 1000 / of_int n"
  define k where "k = 1000 div n"
  define r where "r = 1000 mod n"
  have rn: "(0::rat) < of_int n" using assms by simp
  have xpos: "0 < x" using rn by (simp add: x_def)
  have fin: "\<exists>y. fl x = Fin y \<and> \<lfloor>y\<rfloor> = k \<and> 0 \<le> y"
  proof (cases "n \<le> 1000")
    case small: True
    have kn: "1000 = k * n + r" "0 \<le> r" "r < n" using assms by (simp_all add: k_def r_def)
    have n1000: "(of_int n :: rat) \<le> 1000" using small by simp
    have x1: "1 \<le> x" "x \<le> 1000" using rn n1000 by (simp_all add: x_def field_simps)
    show ?thesis
    proof (cases "r = 0")
      case True
      then have "k * n = 1000" using kn(1) by simp
      then have "(of_int (k * n) :: rat) = of_int 1000" by (simp only:)
      then have "of_int n * (of_int k :: rat) = 1000" by (simp add: mult.commute)
      then have xk: "x = of_int k" using rn by (simp add: x_def field_simps)
      have k0: "0 \<le> k" using assms by (simp add: k_def pos_imp_zdiv_nonneg_iff)
      have "k * 1 \<le> k * n" using k0 assms by (intro mult_left_mono) simp_all
      then have "k \<le> 1000" using kn(1,2) by simp
      with k0 have "\<bar>k\<bar> < 2 ^ 53" by simp
      from fl_of_int_exact[OF this] k0 show ?thesis by (simp add: xk)
    next
      case False
      then have r1: "1 \<le> r" "r \<le> n - 1" using kn by simp_all
      have "(2::rat) powi (- 1022) \<le> 2 powi 0" by (simp only: p2_le_iff)
      then have lo: "2 powi (- 1022) \<le> x" using x1(1) by simp
      have "(2::rat) powi 10 \<le> 2 powi 1023" by (simp only: p2_le_iff)
      then have hi: "x < 2 powi 1023" using x1(2) by simp
      from fl_pos_approx[OF lo hi] obtain y where
        y: "fl x = Fin y" "0 < y" "\<bar>y - x\<bar> \<le> x / 2 ^ 53" by blast
      have "(of_int (k * n + r) :: rat) = of_int 1000" by (simp only: kn(1)[symmetric])
      then have "(1000::rat) = of_int k * of_int n + of_int r" by simp
      then have xe: "x = of_int k + of_int r / of_int n" using rn by (simp add: x_def field_simps)
      have "(of_int 1 :: rat) \<le> of_int r" using r1(1) by (simp only: of_int_le_iff)
      moreover have "(of_int r :: rat) \<le> of_int (n - 1)" using r1(2) by (simp only: of_int_le_iff)
      ultimately have "(1::rat) \<le> of_int r" "(of_int r :: rat) \<le> of_int n - 1" by simp_all
      then have frac: "1 / of_int n \<le> of_int r / (of_int n :: rat)"
          "of_int r / (of_int n :: rat) \<le> 1 - 1 / of_int n"
        using rn by (simp_all add: field_simps)
      have inv: "1 / 1000 \<le> 1 / (of_int n :: rat)" using rn n1000 by (simp add: field_simps)
      have "x / 2 ^ 53 \<le> 1000 / 2 ^ 53" using x1(2) by (simp add: divide_right_mono)
      also have "\<dots> < (1::rat) / 1000" by simp
      finally have err: "x / 2 ^ 53 < 1 / 1000" .
      have "of_int k \<le> y" "y < of_int k + 1" using y(3) xe frac inv err by linarith+
      then have "\<lfloor>y\<rfloor> = k" by (simp add: floor_unique)
      with y show ?thesis by auto
    qed
  next
    case False
    then have big: "1001 \<le> n" by simp
    then have "k = 0" using assms by (simp add: k_def div_pos_pos_trivial)
    have "(of_int 1001 :: rat) \<le> of_int n" using big by (simp only: of_int_le_iff)
    then have "(1001::rat) \<le> of_int n" by simp
    then have x1: "x \<le> 1000 / 1001" using rn by (simp add: x_def field_simps)
    have nz: "x \<noteq> 0" using xpos by simp
    have "(2::rat) powi 0 \<le> 2 powi 1023" by (simp only: p2_le_iff)
    then have hi: "\<bar>x\<bar> < 2 powi 1023" using x1 xpos by simp
    define q where "q = max (ilog2 x - 52) (- 1074)"
    note F = fl_finite[OF nz hi, folded q_def]
    have "(2::rat) powi (ilog2 x) \<le> \<bar>x\<bar>" using nz by (rule ilog2_bounds)
    then have "(2::rat) powi (ilog2 x) < 2 powi 0" using x1 xpos by simp
    then have "ilog2 x < 0" by (simp only: p2_less_iff)
    then have "q \<le> - 53" by (simp add: q_def)
    then have "(2::rat) powi q \<le> 2 powi (- 53)" by (simp only: p2_le_iff)
    then have q53: "(2::rat) powi q \<le> 1 / 2 ^ 53" by (simp add: power_int_minus_divide)
    define y :: rat where "y = of_int (round_half_even (x / 2 powi q)) * 2 powi q"
    have fy: "fl x = Fin y" using F(1) by (simp add: y_def)
    have "\<bar>y - x\<bar> \<le> 2 powi q / 2" using F(2) by (simp add: y_def)
    moreover have "(1::rat) / 2 ^ 53 < 1 / 1001" by simp
    moreover have "(1000::rat) / 1001 + 1 / 1001 = 1" by simp
    ultimately have "y < 1" using q53 x1 by linarith
    have y0: "0 \<le> y" using fl_nonneg[OF _ fy] xpos by simp
    with \<open>y < 1\<close> have "\<lfloor>y\<rfloor> = 0" by (simp add: floor_unique)
    with fy \<open>k = 0\<close> y0 show ?thesis by auto
  qed
  then obtain y where "fl x = Fin y" "\<lfloor>y\<rfloor> = k" "0 \<le> y" by blast
  moreover have "n \<noteq> 0" using assms by simp
  ultimately show ?thesis by (simp add: int_truediv_def x_def k_def)
qed

lemma frame_duration_int:
  assumes "0 < n"
  shows "frame_duration (Some (PyInt n)) duration_ms = Inr (1000 div n)"
proof -
  have "ebind (int_truediv 1000 n) (\<lambda>q. ebind (py_int q) (\<lambda>d. Inr (Some d)))
          = ebind (ebind (int_truediv 1000 n) py_int) (\<lambda>d. Inr (Some d))"
    by (cases "int_truediv 1000 n") simp_all
  then show ?thesis using assms by (simp add: frame_duration_def int_duration)
qed

lemma frame_duration_float:
  assumes "0 < r"
  shows "frame_duration (Some (PyFloat (Fin r))) duration_ms
           = (case fl (1000 / r) of Fin q \<Rightarrow> Inr \<lfloor>q\<rfloor> | _ \<Rightarrow> Inl OverflowError)"
proof -
  have c: "float_of_int 1000 = Inr (Fin 1000)"
    using float_of_int_exact[of 1000] by simp
  have x: "0 \<le> 1000 / r" using assms by simp
  show ?thesis
  proof (cases "fl (1000 / r)")
    case (Fin q)
    from fl_nonneg[OF x Fin] have "0 \<le> q" .
    then show ?thesis using assms by (simp add: frame_duration_def c Fin)
  next
    case PosInf
    then show ?thesis using assms by (simp add: frame_duration_def c)
  next
    case NegInf
    then show ?thesis using assms by (simp add: frame_duration_def c)
  next
    case NaN
    then show ?thesis using fl_not_NaN[of "1000 / r"] by simp
  qed
qed

lemma frame_duration_none:
  "frame_duration None duration_ms = Inr (case duration_ms of None \<Rightarrow> 100 | Some ms \<Rightarrow> ms)"
  by (simp add: frame_duration_def)

text \<open>
  C3 as claimed fails: the quotient is not rounded but truncated. With \<open>fps = 7\<close> the
  duration is 142, and \<open>round(1000 / 7)\<close> is 143.
\<close>

theorem frame_duration_rounds_counterexample:
  "frame_duration (Some (PyInt 7)) None = Inr 142 \<and> spec_duration 7 = 143"
proof -
  have "frame_duration (Some (PyInt 7)) None = Inr (1000 div 7)"
    by (rule frame_duration_int) simp
  moreover have "round_half_even (1000 / 7) = 143"
    by (rule round_half_even_eqI) simp_all
  ultimately show ?thesis by (simp add: spec_duration_def)
qed

text \<open>
  C3, amended. A positive \<open>fps\<close> overrides any explicit \<open>duration_ms\<close>, and the
  duration is \<open>int(1000 / fps)\<close>: for an integer rate \<open>n\<close> it is \<open>1000 div n\<close>, and
  the run is the run with that explicit duration and no rate; for a float rate it is the
  floor of the double-precision quotient, and \<open>OverflowError\<close> when the quotient overflows.
  Without a rate the explicit duration is used, or 100. A rate of 2 gives 500, no rate and no
  duration give 100, and a rate of 3 overrides a duration of 1000 (with 333).
\<close>

theorem frame_duration_truncates:
  "(0 < n \<longrightarrow>
      frame_duration (Some (PyInt n)) duration_ms = Inr (1000 div n)
      \<and> make_gif_from_folder w input_dir output_gif (Some (PyInt n)) duration_ms sz loop
          = make_gif_from_folder w input_dir output_gif None (Some (1000 div n)) sz loop)
   \<and> (0 < r \<longrightarrow>
      frame_duration (Some (PyFloat (Fin r))) duration_ms
        = (case fl (1000 / r) of Fin q \<Rightarrow> Inr \<lfloor>q\<rfloor> | _ \<Rightarrow> Inl OverflowError))
   \<and> frame_duration None duration_ms = Inr (case duration_ms of None \<Rightarrow> 100 | Some ms \<Rightarrow> ms)
   \<and> frame_duration (Some (PyInt 2)) None = Inr 500
   \<and> frame_duration None None = Inr 100
   \<and> frame_duration (Some (PyInt 3)) (Some 1000) = Inr 333"
proof -
  have 1: "frame_duration (Some (PyInt n)) duration_ms = Inr (1000 div n)
      \<and> make_gif_from_folder w input_dir output_gif (Some (PyInt n)) duration_ms sz loop
          = make_gif_from_folder w input_dir output_gif None (Some (1000 div n)) sz loop"
    if "0 < n"
  proof -
    have a: "frame_duration (Some (PyInt n)) duration_ms = Inr (1000 div n)"
      using that by (rule frame_duration_int)
    have b: "frame_duration None (Some (1000 div n)) = Inr (1000 div n)"
      by (simp add: frame_duration_none)
    show ?thesis by (simp only: make_gif_from_folder_def a b)
  qed
  have 2: "frame_duration (Some (PyFloat (Fin r))) duration_ms
        = (case fl (1000 / r) of Fin q \<Rightarrow> Inr \<lfloor>q\<rfloor> | _ \<Rightarrow> Inl OverflowError)"
    if "0 < r" using that by (rule frame_duration_float)
  have 3: "frame_duration (Some (PyInt 2)) None = Inr 500"
    using frame_duration_int[of 2 None] by simp
  have 4: "frame_duration (Some (PyInt 3)) (Some 1000) = Inr 333"
    using frame_duration_int[of 3 "Some 1000"] by simp
  from 1 2 3 4 show ?thesis by (simp add: frame_duration_none)
qed

theorem frame_duration_truncates_witness:
  "(0::int) < 7 \<and> frame_duration (Some (PyInt 7)) (Some 1000) = Inr 142
   \<and> (0::rat) < 3 / 2 \<and> frame_duration (Some (PyFloat (Fin (3 / 2)))) None = Inr 666"
proof -
  have f: "fl (1000 / (3 / 2)) = Fin (5864062014805333 / 8796093022208)"
    using fl_eqI[of 9 "2000 / 3" 5864062014805333] by simp
  have "\<lfloor>5864062014805333 / 8796093022208 :: rat\<rfloor> = 666" by (simp add: floor_eq_iff)
  with frame_duration_truncates[of 7 "Some 1000" example_world "''frames''" "''output.gif''" None 0 "3 / 2"]
    frame_duration_truncates[of 7 None example_world "''frames''" "''output.gif''" None 0 "3 / 2"] f
  show ?thesis by simp
qed
section \<open>The natural order of the paths\<close>

subsection \<open>The tables of digits and letters\<close>

lemma char_of_eq_iff1: "n < 256 \<Longrightarrow> char_of (n::nat) = d \<longleftrightarrow> n = of_char d"
  by (metis char_of_char of_char_of mod_less)

lemma char_of_eq_iff2: "n < 256 \<Longrightarrow> d = char_of (n::nat) \<longleftrightarrow> n = of_char d"
  by (metis char_of_char of_char_of mod_less)

lemma spec_is_digit_iff: "spec_is_digit c = is_decimal c"
proof -
  define n :: nat where "n = of_char c"
  have c: "c = char_of n" by (simp add: n_def)
  have n: "n < 256" by (simp add: n_def)
  show ?thesis
    unfolding spec_is_digit_def spec_digits_def is_decimal_def c
    using n by (simp add: char_of_eq_iff1 char_of_eq_iff2) arith
qed

lemma spec_digit_value:
  assumes "is_decimal c"
  shows "(case map_of spec_digits c of Some v \<Rightarrow> v | None \<Rightarrow> 0) = int (of_char c) - 48"
proof -
  define n :: nat where "n = of_char c"
  have c: "c = char_of n" by (simp add: n_def)
  have n: "n < 256" by (simp add: n_def)
  show ?thesis
    using assms unfolding spec_digits_def is_decimal_def c
    using n by (simp add: char_of_eq_iff1 char_of_eq_iff2) arith
qed

lemma spec_lower_char:
  "(case map_of spec_letters c of Some l \<Rightarrow> l | None \<Rightarrow> c) = lower_char c"
proof -
  define n :: nat where "n = of_char c"
  have c: "c = char_of n" by (simp add: n_def)
  have n: "n < 256" by (simp add: n_def)
  show ?thesis
    unfolding spec_letters_def lower_char_def Let_def c
    using n apply (simp add: char_of_eq_iff1 char_of_eq_iff2)
    apply (intro conjI impI)
    apply (simp_all add: char_of_eq_iff1 char_of_eq_iff2)
    apply arith+
    done
qed

lemma spec_lower_eq: "spec_lower text = lower text"
  by (simp add: spec_lower_def lower_def spec_lower_char)

lemma spec_number_eq:
  assumes "list_all is_decimal ds"
  shows "spec_number ds = foldl (\<lambda>a c. 10 * a + (int (of_char c) - 48)) 0 ds"
proof -
  have "foldl (\<lambda>n c. 10 * n + (case map_of spec_digits c of Some v \<Rightarrow> v | None \<Rightarrow> 0)) a ds
          = foldl (\<lambda>a c. 10 * a + (int (of_char c) - 48)) a ds" for a
    using assms by (induction ds arbitrary: a) (simp_all add: spec_digit_value)
  then show ?thesis by (simp add: spec_number_def)
qed

lemma is_digit_char_iff:
  "is_digit_char c \<longleftrightarrow> is_decimal c \<or> c = CHR 0xB2 \<or> c = CHR 0xB3 \<or> c = CHR 0xB9"
proof -
  define n :: nat where "n = of_char c"
  have c: "c = char_of n" by (simp add: n_def)
  have n: "n < 256" by (simp add: n_def)
  show ?thesis
    unfolding is_digit_char_def is_decimal_def c
    using n by (simp add: char_of_eq_iff1 char_of_eq_iff2)
qed

subsection \<open>The split of the program is the split of the specification\<close>

lemma re_split_digits_text:
  assumes "\<not> is_decimal c"
  shows "re_split_digits (c # cs)
           = (case re_split_digits cs of text # runs \<Rightarrow> (c # text) # runs | [] \<Rightarrow> [[c]])"
proof -
  have L: "re_split_digits (c # cs)
             = (if dropWhile (\<lambda>c. \<not> is_decimal c) cs = []
                then [c # takeWhile (\<lambda>c. \<not> is_decimal c) cs]
                else (c # takeWhile (\<lambda>c. \<not> is_decimal c) cs)
                     # takeWhile is_decimal (dropWhile (\<lambda>c. \<not> is_decimal c) cs)
                     # re_split_digits (dropWhile is_decimal (dropWhile (\<lambda>c. \<not> is_decimal c) cs)))"
    using assms by (subst re_split_digits.simps) (simp add: Let_def)
  have R: "re_split_digits cs
             = (if dropWhile (\<lambda>c. \<not> is_decimal c) cs = []
                then [takeWhile (\<lambda>c. \<not> is_decimal c) cs]
                else takeWhile (\<lambda>c. \<not> is_decimal c) cs
                     # takeWhile is_decimal (dropWhile (\<lambda>c. \<not> is_decimal c) cs)
                     # re_split_digits (dropWhile is_decimal (dropWhile (\<lambda>c. \<not> is_decimal c) cs)))"
    by (subst re_split_digits.simps) (simp add: Let_def)
  show ?thesis unfolding L by (subst R) simp
qed

lemma re_split_digits_digit:
  assumes "is_decimal c"
  shows "re_split_digits (c # cs)
           = (case re_split_digits cs of
                [] # ds # runs \<Rightarrow> [] # (c # ds) # runs
              | runs \<Rightarrow> [] # [c] # runs)"
proof -
  have L: "re_split_digits (c # cs)
             = [] # (c # takeWhile is_decimal cs) # re_split_digits (dropWhile is_decimal cs)"
    using assms by (subst re_split_digits.simps) (simp add: Let_def)
  show ?thesis
  proof (cases cs)
    case Nil
    have "re_split_digits [] = [[]]" by (subst re_split_digits.simps) simp
    then show ?thesis unfolding L by (simp add: Nil)
  next
    case (Cons x xs)
    show ?thesis
    proof (cases "is_decimal x")
      case True
      have R: "re_split_digits cs
                 = [] # takeWhile is_decimal cs # re_split_digits (dropWhile is_decimal cs)"
        using True by (subst re_split_digits.simps) (simp add: Let_def Cons)
      show ?thesis unfolding L by (subst R) simp
    next
      case False
      have R: "re_split_digits cs
                 = (case re_split_digits xs of text # runs \<Rightarrow> (x # text) # runs | [] \<Rightarrow> [[x]])"
        unfolding Cons using False by (rule re_split_digits_text)
      have t: "takeWhile is_decimal cs = []" "dropWhile is_decimal cs = cs"
        using False by (simp_all add: Cons)
      from R obtain pre rs where "re_split_digits cs = (x # pre) # rs"
        by (cases "re_split_digits xs") auto
      then show ?thesis unfolding L t by simp
    qed
  qed
qed

lemma re_split_digits_spec: "re_split_digits s = spec_runs s"
proof (induction s)
  case Nil
  show ?case by (subst re_split_digits.simps) simp
next
  case (Cons c cs)
  show ?case
  proof (cases "is_decimal c")
    case True
    then show ?thesis
      using re_split_digits_digit[OF True, of cs] by (simp add: spec_is_digit_iff Cons)
  next
    case False
    then show ?thesis
      using re_split_digits_text[OF False, of cs] by (simp add: spec_is_digit_iff Cons)
  qed
qed

subsection \<open>The key of the program is the key of the specification\<close>

lemma spec_runs_ok: "runs_ok True (spec_runs s)"
proof (induction s)
  case Nil
  show ?case by simp
next
  case (Cons c cs)
  then show ?case
    by (auto simp: spec_is_digit_iff split: list.splits)
qed

lemma concat_spec_runs: "concat (spec_runs s) = s"
  by (induction s) (auto split: list.splits)

lemma key_token_text:
  assumes "list_all (\<lambda>c. \<not> is_decimal c) run"
    and "CHR 0xB2 \<notin> set run" "CHR 0xB3 \<notin> set run" "CHR 0xB9 \<notin> set run"
  shows "key_token run = Inr (TStr (spec_lower run))"
proof -
  have "\<not> isdigit run"
  proof (cases run)
    case Nil
    then show ?thesis by (simp add: isdigit_def)
  next
    case (Cons c cs)
    then have "\<not> is_digit_char c"
      using assms by (auto simp: is_digit_char_iff)
    then show ?thesis by (simp add: isdigit_def Cons)
  qed
  then show ?thesis by (simp add: key_token_def spec_lower_eq)
qed

lemma key_token_number:
  assumes "run \<noteq> []" "list_all is_decimal run" "length run \<le> 4300"
  shows "key_token run = Inr (TInt (spec_number run))"
proof -
  have "list_all is_digit_char run"
    using assms(2) by (simp add: list_all_iff is_digit_char_def)
  then have "isdigit run" using assms(1) by (simp add: isdigit_def)
  moreover have t: "takeWhile is_decimal run = run"
    using assms(2) by (simp add: list_all_iff)
  ultimately show ?thesis
    using assms by (simp add: key_token_def int_of_str_def spec_number_eq t Let_def)
qed

lemma key_tokens_spec:
  assumes "runs_ok b runs" "list_all plain_name runs"
  shows "in_turn (map key_token runs) = Inr (spec_tokens b runs)"
  using assms
proof (induction runs arbitrary: b)
  case Nil
  show ?case by simp
next
  case (Cons run runs)
  then have t: "in_turn (map key_token runs) = Inr (spec_tokens (\<not> b) runs)" by simp
  show ?case
  proof (cases b)
    case True
    with Cons.prems have "key_token run = Inr (TStr (spec_lower run))"
      by (intro key_token_text) (simp_all add: plain_name_def)
    then show ?thesis using True t by simp
  next
    case False
    with Cons.prems have "key_token run = Inr (TInt (spec_number run))"
      by (intro key_token_number) (simp_all add: plain_name_def)
    then show ?thesis using False t by simp
  qed
qed

lemma natural_sort_key_spec:
  assumes "plain_name s"
  shows "natural_sort_key s = Inr (spec_key s)"
proof -
  have 1: "set run \<subseteq> set s" if "run \<in> set (spec_runs s)" for run
  proof -
    have "set run \<subseteq> set (concat (spec_runs s))" using that by auto
    then show ?thesis by (simp add: concat_spec_runs)
  qed
  have 2: "length run \<le> length s" if "run \<in> set (spec_runs s)" for run
  proof -
    have "length run \<le> sum_list (map length (spec_runs s))"
      using that by (intro member_le_sum_list) simp_all
    also have "\<dots> = length (concat (spec_runs s))" by (simp add: length_concat)
    finally show ?thesis by (simp add: concat_spec_runs)
  qed
  have "plain_name run" if "run \<in> set (spec_runs s)" for run
    using 1[OF that] 2[OF that] assms by (auto simp: plain_name_def)
  then have "list_all plain_name (spec_runs s)" by (simp add: list_all_iff)
  from key_tokens_spec[OF spec_runs_ok this] show ?thesis
    by (simp add: natural_sort_key_def spec_key_def re_split_digits_spec)
qed

lemma spec_tokens_alternating: "alternating b (spec_tokens b runs)"
  by (induction runs arbitrary: b) simp_all

lemma spec_key_alternating: "alternating True (spec_key s)"
  by (simp add: spec_key_def spec_tokens_alternating)

subsection \<open>Comparing two keys never raises\<close>

lemma str_less_iff: "str_less a b \<longleftrightarrow> (map of_char a :: nat list) < map of_char b"
  by (induction a b rule: str_less.induct) auto

lemma map_of_char_eq_iff: "(map of_char a :: nat list) = map of_char b \<longleftrightarrow> a = b"
  by (simp add: inj_map_eq_map inj_on_def)

lemma key_less_alternating:
  assumes "alternating b xs" "alternating b ys"
  shows "key_less xs ys = Inr (tokens_before xs ys)"
  using assms
proof (induction xs ys arbitrary: b rule: tokens_before.induct)
  case (4 a xs b' ys)
  then show ?case by (cases "a = b'") auto
next
  case (5 a xs b' ys)
  then show ?case by (cases "a = b'") (auto simp: str_less_iff)
qed auto

subsection \<open>The comparison is a linear order\<close>

lemma tokens_before_iff:
  assumes "alternating b xs" "alternating b ys"
  shows "tokens_before xs ys \<longleftrightarrow> map enc xs < map enc ys"
  using assms
proof (induction xs ys arbitrary: b rule: tokens_before.induct)
  case (4 a xs b' ys)
  then show ?case by (auto simp: enc_def)
next
  case (5 a xs b' ys)
  then show ?case by (auto simp: enc_def map_of_char_eq_iff)
qed (auto simp: enc_def)

subsection \<open>The insertion sort sorts\<close>

lemma key_less_enc:
  assumes "alternating True xs" "alternating True ys"
  shows "key_less xs ys = Inr (map enc xs < map enc ys)"
  using key_less_alternating[OF assms] tokens_before_iff[OF assms] by simp

lemma py_insort_correct:
  assumes "alternating True (fst x)" "list_all (\<lambda>y. alternating True (fst y)) ys"
    and "sorted (map (\<lambda>y. map enc (fst y)) ys)"
  shows "\<exists>r. py_insort x ys = Inr r \<and> mset r = add_mset x (mset ys)
           \<and> sorted (map (\<lambda>y. map enc (fst y)) r)"
  using assms(2,3)
proof (induction ys)
  case Nil
  then show ?case by simp
next
  case (Cons y ys)
  have k: "key_less (fst y) (fst x) = Inr (map enc (fst y) < map enc (fst x))"
    using Cons.prems(1) assms(1) by (intro key_less_enc) simp_all
  show ?case
  proof (cases "map enc (fst y) < map enc (fst x)")
    case True
    from Cons obtain r where
      r: "py_insort x ys = Inr r" "mset r = add_mset x (mset ys)"
         "sorted (map (\<lambda>y. map enc (fst y)) r)"
      by auto
    have "set r = insert x (set ys)" using r(2) by (metis mset_eq_setD set_mset_add_mset_insert set_mset_mset)
    then have "\<forall>z \<in> set r. map enc (fst y) \<le> map enc (fst z)"
      using True Cons.prems(2) by auto
    then show ?thesis using True r by (simp add: k)
  next
    case False
    then have "map enc (fst x) \<le> map enc (fst y)" by simp
    then show ?thesis using False Cons.prems(2) by (auto simp: k)
  qed
qed

lemma py_sort_correct:
  assumes "list_all (\<lambda>y. alternating True (fst y)) kvs"
  shows "\<exists>r. py_sort kvs = Inr r \<and> mset r = mset kvs
           \<and> sorted (map (\<lambda>y. map enc (fst y)) r)"
  using assms
proof (induction kvs)
  case Nil
  then show ?case by simp
next
  case (Cons x kvs)
  then obtain r where
    r: "py_sort kvs = Inr r" "mset r = mset kvs" "sorted (map (\<lambda>y. map enc (fst y)) r)"
    by auto
  have "set r = set kvs" using r(2) by (rule mset_eq_setD)
  then have a: "list_all (\<lambda>y. alternating True (fst y)) r"
    using Cons.prems by (simp add: list_all_iff)
  have x: "alternating True (fst x)" using Cons.prems by simp
  from py_insort_correct[OF x a r(3)] r(1,2) show ?case by auto
qed

lemma keys_in_turn:
  assumes "list_all plain_name xs"
  shows "in_turn (map (\<lambda>x. ebind (natural_sort_key x) (\<lambda>k. Inr (k, x))) xs)
           = Inr (map (\<lambda>x. (spec_key x, x)) xs)"
  using assms by (induction xs) (simp_all add: natural_sort_key_spec)

text \<open>
  For plain names, the program sorts in the natural order of the specification and never
  raises.
\<close>

lemma sorted_by_key_natural:
  assumes "list_all plain_name xs"
  shows "\<exists>ps. sorted_by_key natural_sort_key xs = Inr ps \<and> mset ps = mset xs
         \<and> sorted_wrt natural_le ps"
proof -
  define kvs where "kvs = map (\<lambda>x. (spec_key x, x)) xs"
  have "list_all (\<lambda>y. alternating True (fst y)) kvs"
    by (simp add: kvs_def list_all_iff spec_key_alternating)
  from py_sort_correct[OF this] obtain r where
    r: "py_sort kvs = Inr r" "mset r = mset kvs" "sorted (map (\<lambda>y. map enc (fst y)) r)"
    by blast
  have s: "set r = set kvs" using r(2) by (rule mset_eq_setD)
  have keys: "fst p = spec_key (snd p)" if "p \<in> set r" for p
    using that s by (auto simp: kvs_def)
  have 1: "sorted_by_key natural_sort_key xs = Inr (map snd r)"
    by (simp add: sorted_by_key_def keys_in_turn[OF assms] r(1) flip: kvs_def)
  have "mset (map snd r) = image_mset snd (mset r)" by simp
  also have "\<dots> = image_mset snd (mset kvs)" by (simp only: r(2))
  also have "\<dots> = mset (map snd kvs)" by simp
  also have "map snd kvs = xs" by (simp add: kvs_def comp_def)
  finally have 2: "mset (map snd r) = mset xs" .
  have "sorted_wrt (\<lambda>p q. map enc (fst p) \<le> map enc (fst q)) r"
    using r(3) by (simp add: sorted_map)
  then have "sorted_wrt (\<lambda>p q. natural_le (snd p) (snd q)) r"
  proof (rule sorted_wrt_mono_rel[rotated])
    fix p q assume p: "p \<in> set r" and q: "q \<in> set r"
      and le: "map enc (fst p) \<le> map enc (fst q)"
    have "tokens_before (fst q) (fst p) \<longleftrightarrow> map enc (fst q) < map enc (fst p)"
      unfolding keys[OF p] keys[OF q]
      by (rule tokens_before_iff[of True]) (rule spec_key_alternating)+
    with le show "natural_le (snd p) (snd q)"
      by (simp add: natural_le_def flip: keys[OF p] keys[OF q])
  qed
  then have 3: "sorted_wrt natural_le (map snd r)" by (simp add: sorted_wrt_map)
  from 1 2 3 show ?thesis by blast
qed

lemma collect_image_paths_sorts_plain_names:
  assumes "list_all plain_name (concat (map (\<lambda>pat. glob w (path_join input_dir pat)) patterns))"
  shows "\<exists>ps. collect_image_paths w input_dir patterns = Inr ps
        \<and> mset ps = mset (concat (map (\<lambda>pat. glob w (path_join input_dir pat)) patterns))
        \<and> sorted_wrt natural_le ps"
  unfolding collect_image_paths_def using assms by (rule sorted_by_key_natural)

lemma sorted_by_key_example:
  "sorted_by_key natural_sort_key [''img10.png'', ''img2.png'', ''img1.png'']
     = Inr [''img1.png'', ''img2.png'', ''img10.png'']"
  by code_simp

lemma natural_sort_key_example:
  "natural_sort_key ''img10.png'' = Inr [TStr ''img'', TInt 10, TStr ''.png'']"
  by code_simp

lemma collect_image_paths_example:
  "collect_image_paths example_world ''frames'' default_patterns
     = Inr [''frames/img1.png'', ''frames/img2.png'', ''frames/img10.png'']"
  by code_simp

lemma sorted_by_key_capital_example:
  "natural_sort_key ([CHR 0xC9] @ ''.png'') = Inr [TStr ([CHR 0xE9] @ ''.png'')]
   \<and> sorted_by_key natural_sort_key [[CHR 0xC9] @ ''.png'', [CHR 0xE8] @ ''.png'', ''Z.png'', ''a.png'']
       = Inr [''a.png'', ''Z.png'', [CHR 0xE8] @ ''.png'', [CHR 0xC9] @ ''.png'']"
  by code_simp

lemma natural_le_example:
  "natural_le (''squared/img1'' @ [CHR 0xB2] @ ''2.png'') ''squared/img3.png''
   \<and> \<not> natural_le ''squared/img3.png'' (''squared/img1'' @ [CHR 0xB2] @ ''2.png'')
   \<and> natural_le ''img2.png'' ''img10.png'' \<and> \<not> natural_le ''img10.png'' ''img2.png''
   \<and> natural_le ''IMG2.png'' ''img10.PNG'' \<and> \<not> natural_le ''b.png'' ''A.png''"
  by code_simp

text \<open>
  C4. The claim holds of every list of plain names, by the lemmas above: the program never
  raises on them and returns them in the natural order. It fails
  where the program misses a case: \<open>isdigit\<close> accepts the superscript two (U+00B2),
  which \<open>\d\<close> does not match and \<open>int\<close> does not read. For the name \<open>img1\<close>,
  superscript two, \<open>2.png\<close> the split is \<open>img\<close>, \<open>1\<close>, the superscript two,
  \<open>2\<close>, \<open>.png\<close>, and the key raises \<open>ValueError\<close> at the third item. So do
  \<open>collect_image_paths\<close> and \<open>make_gif_from_folder\<close> on a folder that holds this
  file, before anything is printed or opened.
\<close>

theorem natural_sort_key_superscript_digit_raises:
  "re_split_digits (''img1'' @ [CHR 0xB2] @ ''2.png'')
     = [''img'', ''1'', [CHR 0xB2], ''2'', ''.png'']
   \<and> isdigit [CHR 0xB2]
   \<and> natural_sort_key (''img1'' @ [CHR 0xB2] @ ''2.png'')
       = Inl (ValueError (''invalid literal for int() with base 10: '' @ [CHR 0x27, CHR 0xB2, CHR 0x27]))
   \<and> glob example_world ''squared/*.png''
       = [''squared/img3.png'', ''squared/img1'' @ [CHR 0xB2] @ ''2.png'']
   \<and> collect_image_paths example_world ''squared'' default_patterns
       = Inl (ValueError (''invalid literal for int() with base 10: '' @ [CHR 0x27, CHR 0xB2, CHR 0x27]))
   \<and> make_gif_from_folder example_world ''squared'' ''output.gif'' None None None 0
       = (Inl (ValueError (''invalid literal for int() with base 10: '' @ [CHR 0x27, CHR 0xB2, CHR 0x27])), [])"
proof -
  have 1: "re_split_digits (''img1'' @ [CHR 0xB2] @ ''2.png'')
     = [''img'', ''1'', [CHR 0xB2], ''2'', ''.png'']"
    by code_simp
  have 2: "isdigit [CHR 0xB2]" by code_simp
  have 3: "natural_sort_key (''img1'' @ [CHR 0xB2] @ ''2.png'')
       = Inl (ValueError (''invalid literal for int() with base 10: '' @ [CHR 0x27, CHR 0xB2, CHR 0x27]))"
    by code_simp
  have 4: "glob example_world ''squared/*.png''
       = [''squared/img3.png'', ''squared/img1'' @ [CHR 0xB2] @ ''2.png'']"
    by (simp add: example_world_def)
  have 5: "collect_image_paths example_world ''squared'' default_patterns
       = Inl (ValueError (''invalid literal for int() with base 10: '' @ [CHR 0x27, CHR 0xB2, CHR 0x27]))"
    by code_simp
  have 6: "make_gif_from_folder example_world ''squared'' ''output.gif'' None None None 0
       = (Inl (ValueError (''invalid literal for int() with base 10: '' @ [CHR 0x27, CHR 0xB2, CHR 0x27])), [])"
    by (simp add: make_gif_from_folder_def 5)
  from 1 2 3 4 5 6 show ?thesis by blast
qed

section \<open>The encoder refuses an empty sequence\<close>

text \<open>
  C6. \<open>save_gif\<close> raises its empty-input error (\<open>ValueError("No frames to save.")\<close>)
  exactly when it is given no frames, and then it has written nothing: no event is recorded.
\<close>

theorem save_gif_empty_input:
  "(fst (save_gif w frames output_path duration_ms loop optimize)
      = Inl (ValueError ''No frames to save.'') \<longleftrightarrow> frames = [])
   \<and> save_gif w [] output_path duration_ms loop optimize
      = (Inl (ValueError ''No frames to save.''), [])"
  by (simp add: save_gif_def Let_def split: option.splits)

section \<open>The driver\<close>

lemma collect_image_paths_empty_folder:
  "collect_image_paths example_world ''empty'' default_patterns = Inr []"
  by (simp add: collect_image_paths_def example_world_def default_patterns_def path_join_def
      sorted_by_key_def)

text \<open>The collector returns no path exactly when no pattern matches a file.\<close>

lemma in_turn_length: "in_turn ms = Inr xs \<Longrightarrow> length xs = length ms"
  by (induction ms arbitrary: xs) (auto simp: ebind_eq_Inr)

lemma py_insort_length: "py_insort x ys = Inr r \<Longrightarrow> length r = Suc (length ys)"
  by (induction ys arbitrary: r) (auto simp: ebind_eq_Inr split: if_splits)

lemma py_sort_length: "py_sort kvs = Inr r \<Longrightarrow> length r = length kvs"
  by (induction kvs arbitrary: r) (auto simp: ebind_eq_Inr dest: py_insort_length)

lemma sorted_by_key_length: "sorted_by_key key xs = Inr ys \<Longrightarrow> length ys = length xs"
  by (auto simp: sorted_by_key_def ebind_eq_Inr dest!: in_turn_length py_sort_length)

lemma collect_image_paths_empty_iff:
  "collect_image_paths w input_dir patterns = Inr []
     \<longleftrightarrow> list_all (\<lambda>pat. glob w (path_join input_dir pat) = []) patterns"
proof -
  define found where "found = concat (map (\<lambda>pat. glob w (path_join input_dir pat)) patterns)"
  have "sorted_by_key natural_sort_key found = Inr [] \<longleftrightarrow> found = []"
  proof
    assume "sorted_by_key natural_sort_key found = Inr []"
    from sorted_by_key_length[OF this] show "found = []" by simp
  next
    assume "found = []"
    then show "sorted_by_key natural_sort_key found = Inr []" by (simp add: sorted_by_key_def)
  qed
  moreover have "found = [] \<longleftrightarrow> list_all (\<lambda>pat. glob w (path_join input_dir pat) = []) patterns"
    by (auto simp: found_def list_all_iff)
  ultimately show ?thesis by (simp add: collect_image_paths_def flip: found_def)
qed

text \<open>
  C7. When the path collector finds no file, \<open>make_gif_from_folder\<close> raises
  \<open>FileNotFoundError\<close>, and the only thing it has done before is to print the empty list
  of paths: no image file was opened.
\<close>

theorem no_images_found_before_open:
  assumes "collect_image_paths w input_dir default_patterns = Inr []"
  shows "make_gif_from_folder w input_dir output_gif fps duration_ms sz loop
           = (Inl (FileNotFoundError (''No images found in '' @ input_dir)), [Print_paths []])
         \<and> (\<forall>p. Open_image p \<notin> set (snd (make_gif_from_folder w input_dir output_gif fps duration_ms sz loop)))"
  using assms by (simp add: make_gif_from_folder_def)

theorem no_images_found_before_open_witness:
  "collect_image_paths example_world ''empty'' default_patterns = Inr []
   \<and> make_gif_from_folder example_world ''empty'' ''output.gif'' None (Some 500) (Some (352, 371)) 0
       = (Inl (FileNotFoundError ''No images found in empty''), [Print_paths []])"
  using no_images_found_before_open [OF collect_image_paths_empty_folder,
      of "''output.gif''" None "Some 500" "Some (352, 371)" 0]
    collect_image_paths_empty_folder
  by simp

text \<open>
  C9. An \<open>fps\<close> that is not positive (zero, negative, or a NaN, for which \<open>fps > 0\<close> is
  false as well) is ignored without an error: the duration is the explicit
  \<open>duration_ms\<close>, or 100 when there is none, and the whole run is the run without \<open>fps\<close>.
\<close>

theorem nonpositive_fps_ignored:
  assumes "\<not> num_positive f"
  shows "frame_duration (Some f) duration_ms
           = Inr (case duration_ms of None \<Rightarrow> 100 | Some ms \<Rightarrow> ms)
         \<and> make_gif_from_folder w input_dir output_gif (Some f) duration_ms sz loop
           = make_gif_from_folder w input_dir output_gif None duration_ms sz loop"
proof -
  have eq: "frame_duration (Some f) duration_ms = frame_duration None duration_ms"
    using assms by (simp add: frame_duration_def)
  have "frame_duration None duration_ms
          = Inr (case duration_ms of None \<Rightarrow> 100 | Some ms \<Rightarrow> ms)"
    by (simp add: frame_duration_def)
  moreover have "make_gif_from_folder w input_dir output_gif (Some f) duration_ms sz loop
          = make_gif_from_folder w input_dir output_gif None duration_ms sz loop"
    by (simp only: make_gif_from_folder_def eq)
  ultimately show ?thesis by (simp only: eq)
qed

theorem nonpositive_fps_ignored_witness:
  "\<not> num_positive (PyInt (- 3))
   \<and> frame_duration (Some (PyInt (- 3))) (Some 250) = Inr 250
   \<and> frame_duration (Some (PyInt 0)) None = Inr 100
   \<and> frame_duration (Some (PyFloat (Fin (- 1 / 2)))) None = Inr 100"
  using nonpositive_fps_ignored [of "PyInt (- 3)" "Some 250" example_world "''frames''" "''output.gif''" None 0]
    nonpositive_fps_ignored [of "PyInt 0" None example_world "''frames''" "''output.gif''" None 0]
    nonpositive_fps_ignored [of "PyFloat (Fin (- 1 / 2))" None example_world "''frames''" "''output.gif''" None 0]
  by simp

end
